theory Spec2Isabelle
  imports Complex_Main "HOL-Library.Multiset"
begin

section \<open>JavaScript numbers and Date objects\<close>

text \<open>
  The billing service and the parser work on JavaScript \<^verbatim>\<open>Date\<close> objects.  A Date holds a
  time value: a whole number of milliseconds since 1970-01-01T00:00 UTC, or NaN (an
  "Invalid Date").  Integral JavaScript numbers that may be NaN are modelled as
  \<^typ>\<open>int option\<close> with \<^term>\<open>None\<close> for NaN, and so is the time value of a Date.
  The calendar functions below are the abstract operations of the ECMAScript
  specification (Day, DayFromYear, YearFromTime, MonthFromTime, DateFromTime, MakeDay,
  MakeDate, TimeClip).  The local time zone is taken to be UTC, so LocalTime and UTC are
  the identity.
\<close>

type_synonym num = "int option"

type_synonym Date = "int option"

definition num_lt :: "num \<Rightarrow> num \<Rightarrow> bool" where
  "num_lt a b = (case a of None \<Rightarrow> False | Some x \<Rightarrow> (case b of None \<Rightarrow> False | Some y \<Rightarrow> x < y))"

definition num_le :: "num \<Rightarrow> num \<Rightarrow> bool" where
  "num_le a b = (case a of None \<Rightarrow> False | Some x \<Rightarrow> (case b of None \<Rightarrow> False | Some y \<Rightarrow> x \<le> y))"

definition num_gt :: "num \<Rightarrow> num \<Rightarrow> bool" where
  "num_gt a b = num_lt b a"

definition num_add :: "num \<Rightarrow> int \<Rightarrow> num" where
  "num_add a k = (case a of None \<Rightarrow> None | Some x \<Rightarrow> Some (x + k))"

definition msPerDay :: int where
  "msPerDay = 86400000"

definition Day :: "int \<Rightarrow> int" where
  "Day t = t div msPerDay"

definition TimeWithinDay :: "int \<Rightarrow> int" where
  "TimeWithinDay t = t mod msPerDay"

definition DaysInYear :: "int \<Rightarrow> int" where
  "DaysInYear y =
     (if y mod 4 \<noteq> 0 then 365
      else if y mod 100 \<noteq> 0 then 366
      else if y mod 400 \<noteq> 0 then 365
      else 366)"

definition DayFromYear :: "int \<Rightarrow> int" where
  "DayFromYear y =
     365 * (y - 1970) + (y - 1969) div 4 - (y - 1901) div 100 + (y - 1601) div 400"

text \<open>
  YearFromTime is specified as the largest year \<open>y\<close> with \<open>DayFromYear y \<le> Day t\<close>.  It
  is computed here from the estimate \<open>1970 + 400 * d div 146097\<close>, which is off by at
  most one; lemma \<open>YearFromDay_bounds\<close> proves that the result is that largest year.
\<close>

definition YearFromDay :: "int \<Rightarrow> int" where
  "YearFromDay d =
     (let y0 = 1970 + (400 * d) div 146097
      in if DayFromYear (y0 + 1) \<le> d then y0 + 1
         else if DayFromYear y0 \<le> d then y0
         else y0 - 1)"

definition YearFromTime :: "int \<Rightarrow> int" where
  "YearFromTime t = YearFromDay (Day t)"

definition InLeapYear :: "int \<Rightarrow> int" where
  "InLeapYear t = (if DaysInYear (YearFromTime t) = 366 then 1 else 0)"

definition DayWithinYear :: "int \<Rightarrow> int" where
  "DayWithinYear t = Day t - DayFromYear (YearFromTime t)"

definition MonthFromTime :: "int \<Rightarrow> int" where
  "MonthFromTime t =
     (let w = DayWithinYear t; l = InLeapYear t
      in if w < 31 then 0
         else if w < 59 + l then 1
         else if w < 90 + l then 2
         else if w < 120 + l then 3
         else if w < 151 + l then 4
         else if w < 181 + l then 5
         else if w < 212 + l then 6
         else if w < 243 + l then 7
         else if w < 273 + l then 8
         else if w < 304 + l then 9
         else if w < 334 + l then 10
         else 11)"

definition monthStart :: "int \<Rightarrow> int \<Rightarrow> int" where
  "monthStart l m =
     (if m = 0 then 0
      else if m = 1 then 31
      else if m = 2 then 59 + l
      else if m = 3 then 90 + l
      else if m = 4 then 120 + l
      else if m = 5 then 151 + l
      else if m = 6 then 181 + l
      else if m = 7 then 212 + l
      else if m = 8 then 243 + l
      else if m = 9 then 273 + l
      else if m = 10 then 304 + l
      else 334 + l)"

definition DateFromTime :: "int \<Rightarrow> int" where
  "DateFromTime t = DayWithinYear t - monthStart (InLeapYear t) (MonthFromTime t) + 1"

definition MakeDay :: "int \<Rightarrow> int \<Rightarrow> int \<Rightarrow> int" where
  "MakeDay year month date =
     (let ym = year + month div 12; mn = month mod 12
      in DayFromYear ym + monthStart (if DaysInYear ym = 366 then 1 else 0) mn + date - 1)"

definition MakeTime :: "int \<Rightarrow> int \<Rightarrow> int \<Rightarrow> int \<Rightarrow> int" where
  "MakeTime hour minute sec ms = hour * 3600000 + minute * 60000 + sec * 1000 + ms"

definition MakeDate :: "int \<Rightarrow> int \<Rightarrow> int" where
  "MakeDate day time = day * msPerDay + time"

definition TimeClip :: "int \<Rightarrow> Date" where
  "TimeClip t = (if \<bar>t\<bar> > 8640000000000000 then None else Some t)"

definition getFullYear :: "Date \<Rightarrow> num" where
  "getFullYear d = (case d of None \<Rightarrow> None | Some t \<Rightarrow> Some (YearFromTime t))"

definition getMonth :: "Date \<Rightarrow> num" where
  "getMonth d = (case d of None \<Rightarrow> None | Some t \<Rightarrow> Some (MonthFromTime t))"

definition getDate :: "Date \<Rightarrow> num" where
  "getDate d = (case d of None \<Rightarrow> None | Some t \<Rightarrow> Some (DateFromTime t))"

text \<open>
  \<^verbatim>\<open>new Date(year, month, date, hours, minutes)\<close>: a year from 0 to 99 means 1900 + year;
  a NaN argument or a time value beyond 8.64e15 ms gives an Invalid Date.
\<close>

definition newDate5 :: "num \<Rightarrow> num \<Rightarrow> num \<Rightarrow> num \<Rightarrow> num \<Rightarrow> Date" where
  "newDate5 year month date hours minutes =
     (case year of None \<Rightarrow> None | Some y \<Rightarrow>
      (case month of None \<Rightarrow> None | Some m \<Rightarrow>
       (case date of None \<Rightarrow> None | Some dt \<Rightarrow>
        (case hours of None \<Rightarrow> None | Some h \<Rightarrow>
         (case minutes of None \<Rightarrow> None | Some mi \<Rightarrow>
            (let yr = (if 0 \<le> y \<and> y \<le> 99 then 1900 + y else y)
             in TimeClip (MakeDate (MakeDay yr m dt) (MakeTime h mi 0 0))))))))"

definition newDate3 :: "num \<Rightarrow> num \<Rightarrow> num \<Rightarrow> Date" where
  "newDate3 year month date = newDate5 year month date (Some 0) (Some 0)"

definition setFullYear :: "Date \<Rightarrow> num \<Rightarrow> Date" where
  "setFullYear d year =
     (let t = (case d of None \<Rightarrow> 0 | Some t \<Rightarrow> t)
      in case year of None \<Rightarrow> None
         | Some y \<Rightarrow> TimeClip (MakeDate (MakeDay y (MonthFromTime t) (DateFromTime t)) (TimeWithinDay t)))"

definition setMonth :: "Date \<Rightarrow> num \<Rightarrow> Date" where
  "setMonth d month =
     (case d of None \<Rightarrow> None | Some t \<Rightarrow>
      (case month of None \<Rightarrow> None
       | Some m \<Rightarrow> TimeClip (MakeDate (MakeDay (YearFromTime t) m (DateFromTime t)) (TimeWithinDay t))))"

section \<open>Billing periods (billingService.ts)\<close>

record Period =
  startDate :: Date
  endDate :: Date

definition maxIterations :: nat where
  "maxIterations = 1000"

text \<open>
  The \<^verbatim>\<open>while\<close> loop of \<^verbatim>\<open>generateMonthPeriods\<close>.  The state is \<^verbatim>\<open>currentStart\<close>,
  \<^verbatim>\<open>iterations\<close> and the \<^verbatim>\<open>periods\<close> pushed so far; the loop returns the periods and the
  final iteration count.
\<close>

function periodsLoop :: "Date \<Rightarrow> Date \<Rightarrow> nat \<Rightarrow> Period list \<Rightarrow> Period list \<times> nat" where
  "periodsLoop currentStart endD iterations periods =
     (if num_le currentStart endD \<and> iterations < maxIterations then
        (let currentEnd0 = newDate3 (getFullYear currentStart) (num_add (getMonth currentStart) 1) (Some 14);
             currentEnd = (if num_lt (getMonth currentEnd0) (getMonth currentStart)
                           then setFullYear currentEnd0 (num_add (getFullYear currentEnd0) 1)
                           else currentEnd0);
             periodEnd = (if num_gt currentEnd endD then endD else currentEnd);
             periods' = periods @ [\<lparr>startDate = currentStart, endDate = periodEnd\<rparr>];
             next0 = newDate3 (getFullYear currentStart) (num_add (getMonth currentStart) 1) (Some 15);
             next = (if num_gt (getMonth next0) (Some 11)
                     then setMonth (setFullYear next0 (num_add (getFullYear next0) 1)) (Some 0)
                     else next0)
         in periodsLoop next endD (iterations + 1) periods')
      else (periods, iterations))"
  by pat_completeness auto
termination
  by (relation "measure (\<lambda>(cs, e, i, ps). maxIterations - i)") auto

datatype console_message = MaxIterationsReached

record PeriodsResult =
  periods :: "Period list"
  console_errors :: "console_message list"

definition firstStart :: "Date \<Rightarrow> Date" where
  "firstStart startD =
     (let cs0 = newDate3 (getFullYear startD) (getMonth startD) (Some 15);
          cs1 = (if num_lt (getDate startD) (Some 15)
                 then newDate3 (getFullYear startD) (num_add (getMonth startD) (- 1)) (Some 15)
                 else cs0)
      in if num_lt (getMonth cs1) (Some 0)
         then newDate3 (num_add (getFullYear cs1) (- 1)) (Some 11) (Some 15)
         else cs1)"

definition generateMonthPeriods :: "Date \<Rightarrow> Date \<Rightarrow> PeriodsResult" where
  "generateMonthPeriods startD endD =
     (case periodsLoop (firstStart startD) endD 0 [] of
        (ps, iterations) \<Rightarrow>
          \<lparr>periods = ps,
           console_errors = (if iterations \<ge> maxIterations then [MaxIterationsReached] else [])\<rparr>)"

text \<open>\<^verbatim>\<open>new Date(y, m, d)\<close> for literal arguments, as the tests write dates.\<close>

definition ymd :: "int \<Rightarrow> int \<Rightarrow> int \<Rightarrow> Date" where
  "ymd y m d = newDate3 (Some y) (Some m) (Some d)"

declare periodsLoop.simps [simp del]

subsection \<open>Month indices\<close>

text \<open>
  Auxiliary notions for stating and proving properties of the loop.  Months are numbered
  by the index \<open>12 * year + month\<close>; \<open>monthDay I d\<close> is the time value of 00:00 on day
  \<open>d\<close> of the month with index \<open>I\<close>.  \<open>cycleEnd I\<close> is the value of \<^verbatim>\<open>currentEnd\<close> that the
  loop body computes for the cycle starting in month \<open>I\<close>, \<open>periodAt te I\<close> the period it
  pushes, and \<open>cycles I te f\<close> the number of iterations made from month \<open>I\<close> with \<open>f\<close>
  iterations left before the cap.  \<open>startIndex ts\<close> is the index of the month whose 15th
  is the last 15th on or before the time \<open>ts\<close>.
\<close>

definition monthDay :: "int \<Rightarrow> int \<Rightarrow> int" where
  "monthDay I d = MakeDate (MakeDay 0 I d) 0"

definition cycleEnd :: "int \<Rightarrow> int" where
  "cycleEnd I = (if I mod 12 = 11 then monthDay (I + 13) 14 else monthDay (I + 1) 14)"

definition periodAt :: "int \<Rightarrow> int \<Rightarrow> Period" where
  "periodAt te I = \<lparr>startDate = Some (monthDay I 15), endDate = Some (min (cycleEnd I) te)\<rparr>"

fun cycles :: "int \<Rightarrow> int \<Rightarrow> nat \<Rightarrow> nat" where
  "cycles I te 0 = 0"
| "cycles I te (Suc f) = (if monthDay I 15 \<le> te then Suc (cycles (I + 1) te f) else 0)"

definition startIndex :: "int \<Rightarrow> int" where
  "startIndex ts =
     12 * YearFromTime ts + MonthFromTime ts - (if DateFromTime ts < 15 then 1 else 0)"

text \<open>
  The two halves of the loop body, named for the proofs: the value of \<^verbatim>\<open>currentEnd\<close> computed
  from \<^verbatim>\<open>currentStart\<close>, and the next \<^verbatim>\<open>currentStart\<close>.  A period is well ordered when its
  start is a valid date and, if its end is valid too, the start is not after the end.
\<close>

definition currentEndOf :: "Date \<Rightarrow> Date" where
  "currentEndOf cs =
     (let currentEnd0 = newDate3 (getFullYear cs) (num_add (getMonth cs) 1) (Some 14)
      in if num_lt (getMonth currentEnd0) (getMonth cs)
         then setFullYear currentEnd0 (num_add (getFullYear currentEnd0) 1)
         else currentEnd0)"

definition nextStartOf :: "Date \<Rightarrow> Date" where
  "nextStartOf cs =
     (let next0 = newDate3 (getFullYear cs) (num_add (getMonth cs) 1) (Some 15)
      in if num_gt (getMonth next0) (Some 11)
         then setMonth (setFullYear next0 (num_add (getFullYear next0) 1)) (Some 0)
         else next0)"

definition wellOrdered :: "Period \<Rightarrow> bool" where
  "wellOrdered p = (startDate p \<noteq> None \<and> (endDate p \<noteq> None \<longrightarrow> num_le (startDate p) (endDate p)))"

section \<open>IEEE 754 double-precision numbers\<close>

text \<open>
  Amounts and prices are JavaScript Numbers, that is IEEE 754 binary64 values: \<open>NaN\<close>, the two
  infinities, the negative zero, and \<open>Fin v\<close> for the finite value \<open>v\<close> (\<open>Fin 0\<close> is the positive
  zero).  Every arithmetic operation returns the double nearest to the exact result, ties
  to the even significand (\<open>roundNum\<close>): the significand has 53 bits, the least exponent of a
  unit in the last place is -1074, and a result that rounds to at least \<open>2 ^ 1024\<close> is infinite.
  \<open>expo a\<close> is the exponent of the leading bit of \<open>a > 0\<close>, the integer \<open>e\<close> with
  \<open>2 ^ e \<le> a < 2 ^ (e + 1)\<close>, computed from the bit length of an integer.
\<close>

datatype number = NaN | PosInf | NegInf | NegZero | Fin real

function bitLength :: "int \<Rightarrow> int" where
  "bitLength n = (if n \<le> 0 then 0 else bitLength (n div 2) + 1)"
  by pat_completeness auto
termination by (relation "measure nat") auto

declare bitLength.simps [simp del]

definition expo :: "real \<Rightarrow> int" where
  "expo a = (if 1 \<le> a then bitLength \<lfloor>a\<rfloor> - 1 else - bitLength (\<lceil>1 / a\<rceil> - 1))"

definition roundHalfEven :: "real \<Rightarrow> int" where
  "roundHalfEven q =
     (let f = \<lfloor>q\<rfloor>; r = q - of_int f
      in if r < 1 / 2 then f else if 1 / 2 < r then f + 1 else if even f then f else f + 1)"

definition roundNum :: "real \<Rightarrow> number" where
  "roundNum x =
     (let a = \<bar>x\<bar>;
          e = max (expo a - 52) (- 1074);
          m = roundHalfEven (a / 2 powi e);
          v = of_int m * 2 powi e
      in if x = 0 then Fin 0
         else if 2 ^ 1024 \<le> v then (if x < 0 then NegInf else PosInf)
         else if m = 0 then (if x < 0 then NegZero else Fin 0)
         else Fin (if x < 0 then - v else v))"

fun val :: "number \<Rightarrow> real" where
  "val (Fin v) = v"
| "val x = 0"

fun signBit :: "number \<Rightarrow> bool" where
  "signBit (Fin v) = (v < 0)"
| "signBit NegZero = True"
| "signBit NegInf = True"
| "signBit x = False"

fun isInfinite :: "number \<Rightarrow> bool" where
  "isInfinite PosInf = True"
| "isInfinite NegInf = True"
| "isInfinite x = False"

fun isZero :: "number \<Rightarrow> bool" where
  "isZero NegZero = True"
| "isZero (Fin v) = (v = 0)"
| "isZero x = False"

definition zero :: "bool \<Rightarrow> number" where
  "zero s = (if s then NegZero else Fin 0)"

definition infinity :: "bool \<Rightarrow> number" where
  "infinity s = (if s then NegInf else PosInf)"

text \<open>The operators \<^verbatim>\<open>+\<close>, unary and binary \<^verbatim>\<open>-\<close>, \<^verbatim>\<open>*\<close> and \<^verbatim>\<open>/\<close> on Numbers.\<close>

definition fadd :: "number \<Rightarrow> number \<Rightarrow> number" where
  "fadd x y =
     (if x = NaN \<or> y = NaN then NaN
      else if isInfinite x then (if isInfinite y \<and> y \<noteq> x then NaN else x)
      else if isInfinite y then y
      else if val x + val y = 0 then zero (signBit x \<and> signBit y)
      else roundNum (val x + val y))"

fun fneg :: "number \<Rightarrow> number" where
  "fneg NaN = NaN"
| "fneg PosInf = NegInf"
| "fneg NegInf = PosInf"
| "fneg NegZero = Fin 0"
| "fneg (Fin v) = (if v = 0 then NegZero else Fin (- v))"

definition fsub :: "number \<Rightarrow> number \<Rightarrow> number" where
  "fsub x y = fadd x (fneg y)"

definition fmul :: "number \<Rightarrow> number \<Rightarrow> number" where
  "fmul x y =
     (if x = NaN \<or> y = NaN then NaN
      else if isInfinite x \<or> isInfinite y
        then (if isZero x \<or> isZero y then NaN else infinity (signBit x \<noteq> signBit y))
      else if isZero x \<or> isZero y then zero (signBit x \<noteq> signBit y)
      else roundNum (val x * val y))"

definition fdiv :: "number \<Rightarrow> number \<Rightarrow> number" where
  "fdiv x y =
     (if x = NaN \<or> y = NaN then NaN
      else if isInfinite x then (if isInfinite y then NaN else infinity (signBit x \<noteq> signBit y))
      else if isInfinite y then zero (signBit x \<noteq> signBit y)
      else if isZero y then (if isZero x then NaN else infinity (signBit x \<noteq> signBit y))
      else if isZero x then zero (signBit x \<noteq> signBit y)
      else roundNum (val x / val y))"

text \<open>
  \<^verbatim>\<open>Math.round\<close>: the nearest integer, halves towards positive infinity; the result is -0 for
  -0 and for the values from -0.5 up to it.
\<close>

fun Math_round :: "number \<Rightarrow> number" where
  "Math_round (Fin v) = (if v < 0 \<and> - (1 / 2) \<le> v then NegZero else Fin (of_int \<lfloor>v + 1 / 2\<rfloor>))"
| "Math_round x = x"

text \<open>The comparisons \<^verbatim>\<open>x > 0\<close>, \<^verbatim>\<open>x < y\<close> and \<^verbatim>\<open>x >= y\<close>, all false when an operand is NaN.\<close>

fun positive :: "number \<Rightarrow> bool" where
  "positive PosInf = True"
| "positive (Fin v) = (0 < v)"
| "positive x = False"

definition lessThan :: "number \<Rightarrow> number \<Rightarrow> bool" where
  "lessThan x y \<longleftrightarrow> x \<noteq> NaN \<and> y \<noteq> NaN \<and> x \<noteq> PosInf \<and> y \<noteq> NegInf
     \<and> (x = NegInf \<or> y = PosInf \<or> val x < val y)"

definition greaterOrEqual :: "number \<Rightarrow> number \<Rightarrow> bool" where
  "greaterOrEqual x y \<longleftrightarrow> x \<noteq> NaN \<and> y \<noteq> NaN \<and> \<not> lessThan x y"

text \<open>The Number value of a decimal literal with \<open>k\<close> digits after the point, such as 0.13.\<close>

definition decimal :: "int \<Rightarrow> nat \<Rightarrow> number" where
  "decimal n k = roundNum (of_int n / 10 ^ k)"

section \<open>Strings, transactions and bill items\<close>

text \<open>
  A JavaScript string is a sequence of UTF-16 code units, modelled as a list of natural
  numbers; \<open>str\<close> turns an ASCII literal into such a string.  \<^verbatim>\<open>trim\<close> removes the white space
  and line terminator code units of ECMAScript at both ends.

  \<^verbatim>\<open>String.prototype.toLowerCase\<close> maps the letters A to Z of a string of ASCII code units to
  a to z and leaves its other code units unchanged.  On a string with a code unit outside
  ASCII it applies the Unicode case mapping with its context-sensitive rules; that mapping
  is the parameter \<open>unicodeLower\<close> of the model, and every statement below holds whatever
  function it is.
\<close>

type_synonym jstring = "nat list"

definition str :: "string \<Rightarrow> jstring" where
  "str s = map of_char s"

definition isWhiteSpace :: "nat \<Rightarrow> bool" where
  "isWhiteSpace c \<longleftrightarrow>
     (9 \<le> c \<and> c \<le> 13) \<or> c = 32 \<or> c = 160 \<or> c = 5760 \<or> (8192 \<le> c \<and> c \<le> 8202)
     \<or> c = 8232 \<or> c = 8233 \<or> c = 8239 \<or> c = 8287 \<or> c = 12288 \<or> c = 65279"

definition trim :: "jstring \<Rightarrow> jstring" where
  "trim s = rev (dropWhile isWhiteSpace (rev (dropWhile isWhiteSpace s)))"

definition lowerUnit :: "nat \<Rightarrow> nat" where
  "lowerUnit c = (if 65 \<le> c \<and> c \<le> 90 then c + 32 else c)"

definition toLowerCase :: "(jstring \<Rightarrow> jstring) \<Rightarrow> jstring \<Rightarrow> jstring" where
  "toLowerCase unicodeLower s =
     (if list_all (\<lambda>c. c < 128) s then map lowerUnit s else unicodeLower s)"

record Transaction =
  id_t :: jstring
  date :: Date
  sender :: jstring
  item :: jstring
  amount :: number
  originalMessage :: "jstring option"
  createdAt :: Date
  updatedAt :: Date

text \<open>The field \<^verbatim>\<open>item\<close> of a BillItem is called \<open>billItem\<close>, the field \<^verbatim>\<open>id\<close> of a Transaction \<open>id_t\<close>.\<close>

record BillItem =
  billItem :: jstring
  quantity :: nat
  unitPrice :: number
  totalPrice :: number

text \<open>\<^verbatim>\<open>Math.round(x * 100) / 100\<close>.\<close>

definition round2 :: "number \<Rightarrow> number" where
  "round2 x = fdiv (Math_round (fmul x (Fin 100))) (Fin 100)"

definition itemKey :: "(jstring \<Rightarrow> jstring) \<Rightarrow> Transaction \<Rightarrow> jstring" where
  "itemKey unicodeLower t = trim (toLowerCase unicodeLower (item t))"

text \<open>
  \<^verbatim>\<open>Array.prototype.sort\<close> with a comparison function is a stable sort: an element is placed
  after the elements that the comparison puts before it or leaves equal to it, where a
  comparison result that is not greater than zero (NaN included) leaves the order as it
  is.  It is modelled as the stable insertion sort; when the comparison function is not
  consistent, which here takes a NaN among the prices, ECMAScript leaves the order to the
  implementation.
\<close>

fun insertBy :: "('a \<Rightarrow> 'a \<Rightarrow> number) \<Rightarrow> 'a \<Rightarrow> 'a list \<Rightarrow> 'a list" where
  "insertBy cmp x [] = [x]"
| "insertBy cmp x (y # ys) = (if positive (cmp x y) then y # insertBy cmp x ys else x # y # ys)"

definition Array_sort :: "('a \<Rightarrow> 'a \<Rightarrow> number) \<Rightarrow> 'a list \<Rightarrow> 'a list" where
  "Array_sort cmp xs = foldr (insertBy cmp) xs []"

text \<open>
  \<^verbatim>\<open>combineItems\<close>: the \<^verbatim>\<open>Map\<close> from item key to (quantity, totalPrice, unitPrice) is an
  association list in insertion order, which is the iteration order of a JavaScript Map.
  \<open>addToItemMap\<close> is the body of the \<^verbatim>\<open>forEach\<close>.  The quantity counts the transactions of
  an array, which has fewer than \<open>2 ^ 32\<close> elements, so the Number that holds it is exact;
  it is modelled as a natural number.
\<close>

fun addToItemMap :: "(jstring \<times> nat \<times> number \<times> number) list \<Rightarrow> jstring \<Rightarrow> number
    \<Rightarrow> (jstring \<times> nat \<times> number \<times> number) list" where
  "addToItemMap [] k a = [(k, 1, a, a)]"
| "addToItemMap ((k', q, tot, u) # m) k a =
     (if k' = k then (k', q + 1, fadd tot a, fdiv (fadd tot a) (Fin (real (q + 1)))) # m
      else (k', q, tot, u) # addToItemMap m k a)"

definition combineItems :: "(jstring \<Rightarrow> jstring) \<Rightarrow> Transaction list \<Rightarrow> BillItem list" where
  "combineItems unicodeLower transactions =
     (let itemMap = foldl (\<lambda>m t. addToItemMap m (itemKey unicodeLower t) (amount t)) [] transactions;
          billItems = map (\<lambda>(k, q, tot, u).
              \<lparr>billItem = k, quantity = q, unitPrice = round2 u, totalPrice = round2 tot\<rparr>) itemMap
      in Array_sort (\<lambda>a b. fsub (totalPrice b) (totalPrice a)) billItems)"

text \<open>A transaction of the given item and amount, as the billing tests build them.\<close>

definition tx :: "string \<Rightarrow> number \<Rightarrow> Transaction" where
  "tx i a = \<lparr>id_t = [], date = ymd 2024 0 20, sender = str ''Monir'', item = str i, amount = a,
     originalMessage = None, createdAt = None, updatedAt = None\<rparr>"

text \<open>
  For the statements about \<^verbatim>\<open>combineItems\<close>: the transactions of a list that have a given item
  key, the sum of a non-empty list of amounts as the code accumulates it (from the first
  amount, adding the others from left to right), the average that the code stores with
  it, and the two stages of the function.
\<close>

definition occurrences :: "(jstring \<Rightarrow> jstring) \<Rightarrow> jstring \<Rightarrow> Transaction list \<Rightarrow> Transaction list" where
  "occurrences unicodeLower k ts = filter (\<lambda>t. itemKey unicodeLower t = k) ts"

fun total :: "number list \<Rightarrow> number" where
  "total [] = Fin 0"
| "total (a # as) = foldl fadd a as"

definition average :: "number list \<Rightarrow> number" where
  "average as = (if length as = 1 then total as else fdiv (total as) (Fin (real (length as))))"

definition itemMapOf :: "(jstring \<Rightarrow> jstring) \<Rightarrow> Transaction list
    \<Rightarrow> (jstring \<times> nat \<times> number \<times> number) list" where
  "itemMapOf unicodeLower ts =
     foldl (\<lambda>m t. addToItemMap m (itemKey unicodeLower t) (amount t)) [] ts"

definition toBillItem :: "jstring \<times> nat \<times> number \<times> number \<Rightarrow> BillItem" where
  "toBillItem = (\<lambda>(k, q, tot, u).
     \<lparr>billItem = k, quantity = q, unitPrice = round2 u, totalPrice = round2 tot\<rparr>)"

text \<open>A finite Number is a multiple of the least positive double, \<^verbatim>\<open>Number.MIN_VALUE\<close>.\<close>

definition minValue :: real where
  "minValue = 2 powi (- 1074)"

definition onGrid :: "number \<Rightarrow> bool" where
  "onGrid x = (case x of Fin v \<Rightarrow> v / minValue \<in> \<int> | _ \<Rightarrow> True)"

section \<open>Calendar arithmetic\<close>


lemma div_bounds:
  fixes x k :: int
  assumes "0 < k"
  shows "k * (x div k) \<le> x" and "x < k * (x div k) + k"
proof -
  have "x = k * (x div k) + x mod k" by simp
  moreover have "0 \<le> x mod k" "x mod k < k" using assms by simp_all
  ultimately show "k * (x div k) \<le> x" and "x < k * (x div k) + k" by linarith+
qed

lemma div_succ:
  fixes x k :: int
  assumes k: "1 < k"
  shows "(x + 1) div k = x div k + (if (x + 1) mod k = 0 then 1 else 0)"
proof -
  define q where "q = x div k"
  define r where "r = x mod k"
  have x: "x = k * q + r" and r: "0 \<le> r" "r < k"
    using k by (simp_all add: q_def r_def)
  show ?thesis
  proof (cases "r = k - 1")
    case True
    then have e: "x + 1 = k * (q + 1) + 0" using x by (simp add: algebra_simps)
    have "(x + 1) div k = q + 1" by (rule int_div_pos_eq [OF e]) (use k in simp_all)
    moreover have "(x + 1) mod k = 0" using e by simp
    ultimately show ?thesis by (simp add: q_def)
  next
    case False
    then have e: "x + 1 = k * q + (r + 1)" and r': "0 \<le> r + 1" "r + 1 < k"
      using x r by simp_all
    have "(x + 1) div k = q" by (rule int_div_pos_eq [OF e r'])
    moreover have "(x + 1) mod k = r + 1" by (rule int_mod_pos_eq [OF e r'])
    ultimately show ?thesis using r by (simp add: q_def)
  qed
qed

lemma DayFromYear_Suc: "DayFromYear (y + 1) = DayFromYear y + DaysInYear y"
proof -
  have a: "(y + 1 - 1969) div 4 = (y - 1969) div 4 + (if (y - 1968) mod 4 = 0 then 1 else 0)"
    using div_succ [of 4 "y - 1969"] by (simp add: algebra_simps)
  have b: "(y + 1 - 1901) div 100 = (y - 1901) div 100 + (if (y - 1900) mod 100 = 0 then 1 else 0)"
    using div_succ [of 100 "y - 1901"] by (simp add: algebra_simps)
  have c: "(y + 1 - 1601) div 400 = (y - 1601) div 400 + (if (y - 1600) mod 400 = 0 then 1 else 0)"
    using div_succ [of 400 "y - 1601"] by (simp add: algebra_simps)
  have m4: "(y - 1968) mod 4 = 0 \<longleftrightarrow> y mod 4 = 0"
    using mod_diff_right_eq [of y 1968 4] by simp
  have m100: "(y - 1900) mod 100 = 0 \<longleftrightarrow> y mod 100 = 0"
    using mod_diff_right_eq [of y 1900 100] by simp
  have m400: "(y - 1600) mod 400 = 0 \<longleftrightarrow> y mod 400 = 0"
    using mod_diff_right_eq [of y 1600 400] by simp
  have d1: "y mod 100 = 0 \<Longrightarrow> y mod 4 = 0"
    using mod_mod_cancel [of 4 100 y] by simp
  have d2: "y mod 400 = 0 \<Longrightarrow> y mod 100 = 0"
    using mod_mod_cancel [of 100 400 y] by simp
  show ?thesis
    unfolding DayFromYear_def DaysInYear_def a b c m4 m100 m400 using d1 d2 by auto
qed

lemma DayFromYear_linear:
  obtains a b c where
    "DayFromYear (1970 + x) = 365 * x + a - b + c"
    "4 * a \<le> x + 1" "x + 1 < 4 * a + 4"
    "100 * b \<le> x + 69" "x + 69 < 100 * b + 100"
    "400 * c \<le> x + 369" "x + 369 < 400 * c + 400"
proof
  show "DayFromYear (1970 + x) = 365 * x + (x + 1) div 4 - (x + 69) div 100 + (x + 369) div 400"
    by (simp add: DayFromYear_def add.commute)
  show "4 * ((x + 1) div 4) \<le> x + 1" by (rule div_bounds) simp
  show "x + 1 < 4 * ((x + 1) div 4) + 4" by (rule div_bounds) simp
  show "100 * ((x + 69) div 100) \<le> x + 69" by (rule div_bounds) simp
  show "x + 69 < 100 * ((x + 69) div 100) + 100" by (rule div_bounds) simp
  show "400 * ((x + 369) div 400) \<le> x + 369" by (rule div_bounds) simp
  show "x + 369 < 400 * ((x + 369) div 400) + 400" by (rule div_bounds) simp
qed

lemma DayFromYear_upper: "400 * DayFromYear (1970 + x) \<le> 146097 * x + 589"
proof -
  obtain a b c where
    "DayFromYear (1970 + x) = 365 * x + a - b + c"
    "4 * a \<le> x + 1" "x + 69 < 100 * b + 100" "400 * c \<le> x + 369"
    by (rule DayFromYear_linear [of x])
  then show ?thesis by linarith
qed

lemma DayFromYear_lower: "146097 * x - 506 \<le> 400 * DayFromYear (1970 + x)"
proof -
  obtain a b c where
    "DayFromYear (1970 + x) = 365 * x + a - b + c"
    "x + 1 < 4 * a + 4" "100 * b \<le> x + 69" "x + 369 < 400 * c + 400"
    by (rule DayFromYear_linear [of x])
  then show ?thesis by linarith
qed

lemma YearFromDay_bounds:
  "DayFromYear (YearFromDay d) \<le> d \<and> d < DayFromYear (YearFromDay d + 1)"
proof -
  define q where "q = (400 * d) div 146097"
  have q1: "146097 * q \<le> 400 * d" unfolding q_def by (rule div_bounds) simp
  have q2: "400 * d < 146097 * q + 146097" unfolding q_def by (rule div_bounds) simp
  have "400 * DayFromYear (1970 + (q - 1)) \<le> 146097 * q - 145508"
    using DayFromYear_upper [of "q - 1"] by (simp add: algebra_simps)
  with q1 have lo: "DayFromYear (1970 + (q - 1)) \<le> d" by linarith
  have "146097 * q + 291688 \<le> 400 * DayFromYear (1970 + (q + 2))"
    using DayFromYear_lower [of "q + 2"] by (simp add: algebra_simps)
  with q2 have hi: "d < DayFromYear (1970 + (q + 2))" by linarith
  have e1: "1970 + q - 1 = 1970 + (q - 1)" and e2: "1970 + q + 1 + 1 = 1970 + (q + 2)"
    by simp_all
  show ?thesis
    unfolding YearFromDay_def Let_def q_def [symmetric]
    using lo hi e1 e2 by (auto simp del: add_diff_eq diff_add_eq)
qed


lemma DaysInYear_bounds: "365 \<le> DaysInYear y" "DaysInYear y \<le> 366"
  by (simp_all add: DaysInYear_def)

lemma DayFromYear_mono: "y \<le> y' \<Longrightarrow> DayFromYear y \<le> DayFromYear y'"
proof (induction "nat (y' - y)" arbitrary: y')
  case 0
  then show ?case by simp
next
  case (Suc n)
  then have "n = nat ((y' - 1) - y)" "y \<le> y' - 1" by linarith+
  then have "DayFromYear y \<le> DayFromYear (y' - 1)" using Suc.hyps(1) by blast
  moreover have "DayFromYear y' = DayFromYear (y' - 1) + DaysInYear (y' - 1)"
    using DayFromYear_Suc [of "y' - 1"] by simp
  ultimately show ?case using DaysInYear_bounds [of "y' - 1"] by linarith
qed

lemma YearFromDay_unique:
  assumes "DayFromYear y \<le> d" "d < DayFromYear (y + 1)"
  shows "YearFromDay d = y"
proof -
  let ?Y = "YearFromDay d"
  have b: "DayFromYear ?Y \<le> d" "d < DayFromYear (?Y + 1)"
    using YearFromDay_bounds by blast+
  have "\<not> ?Y < y"
  proof
    assume "?Y < y"
    then have "DayFromYear (?Y + 1) \<le> DayFromYear y" by (intro DayFromYear_mono) simp
    with assms b show False by linarith
  qed
  moreover have "\<not> y < ?Y"
  proof
    assume "y < ?Y"
    then have "DayFromYear (y + 1) \<le> DayFromYear ?Y" by (intro DayFromYear_mono) simp
    with assms b show False by linarith
  qed
  ultimately show ?thesis by linarith
qed

lemma InLeapYear_cases: "InLeapYear t = 0 \<or> InLeapYear t = 1"
  by (simp add: InLeapYear_def)

lemma InLeapYear_DaysInYear: "DaysInYear (YearFromTime t) = 365 + InLeapYear t"
  by (simp add: InLeapYear_def DaysInYear_def)

lemma DayWithinYear_bounds: "0 \<le> DayWithinYear t" "DayWithinYear t < 365 + InLeapYear t"
proof -
  have "DayFromYear (YearFromTime t) \<le> Day t"
    and "Day t < DayFromYear (YearFromTime t + 1)"
    using YearFromDay_bounds [of "Day t"] by (simp_all add: YearFromTime_def)
  then show "0 \<le> DayWithinYear t" "DayWithinYear t < 365 + InLeapYear t"
    using DayFromYear_Suc [of "YearFromTime t"] InLeapYear_DaysInYear [of t]
    by (simp_all add: DayWithinYear_def)
qed

lemma monthStart_simps:
  "monthStart l 0 = 0" "monthStart l 1 = 31" "monthStart l 2 = 59 + l"
  "monthStart l 3 = 90 + l" "monthStart l 4 = 120 + l" "monthStart l 5 = 151 + l"
  "monthStart l 6 = 181 + l" "monthStart l 7 = 212 + l" "monthStart l 8 = 243 + l"
  "monthStart l 9 = 273 + l" "monthStart l 10 = 304 + l" "monthStart l 11 = 334 + l"
  by (simp_all add: monthStart_def)

lemma month_cases:
  fixes mn :: int
  assumes "0 \<le> mn" "mn \<le> 11"
  obtains "mn = 0" | "mn = 1" | "mn = 2" | "mn = 3" | "mn = 4" | "mn = 5" | "mn = 6"
    | "mn = 7" | "mn = 8" | "mn = 9" | "mn = 10" | "mn = 11"
proof -
  have "mn = 0 \<or> mn = 1 \<or> mn = 2 \<or> mn = 3 \<or> mn = 4 \<or> mn = 5 \<or> mn = 6 \<or> mn = 7
      \<or> mn = 8 \<or> mn = 9 \<or> mn = 10 \<or> mn = 11"
    using assms by presburger
  then show ?thesis using that by blast
qed

text \<open>The month found by the comparison chain of MonthFromTime brackets the day.\<close>

lemma month_bracket:
  "0 \<le> MonthFromTime t \<and> MonthFromTime t \<le> 11
   \<and> monthStart (InLeapYear t) (MonthFromTime t) \<le> DayWithinYear t
   \<and> (MonthFromTime t < 11 \<longrightarrow>
        DayWithinYear t < monthStart (InLeapYear t) (MonthFromTime t + 1))"
proof -
  define w where "w = DayWithinYear t"
  define l where "l = InLeapYear t"
  have w0: "0 \<le> w" using DayWithinYear_bounds(1) [of t] by (simp add: w_def)
  have l0: "0 \<le> l" using InLeapYear_cases [of t] by (auto simp: l_def)
  consider "w < 31" | "31 \<le> w" "w < 59 + l" | "59 + l \<le> w" "w < 90 + l"
    | "90 + l \<le> w" "w < 120 + l" | "120 + l \<le> w" "w < 151 + l"
    | "151 + l \<le> w" "w < 181 + l" | "181 + l \<le> w" "w < 212 + l"
    | "212 + l \<le> w" "w < 243 + l" | "243 + l \<le> w" "w < 273 + l"
    | "273 + l \<le> w" "w < 304 + l" | "304 + l \<le> w" "w < 334 + l"
    | "334 + l \<le> w"
    by linarith
  then show ?thesis
  proof cases
    case 1
    then have "MonthFromTime t = 0"
      by (simp add: MonthFromTime_def Let_def w_def [symmetric] l_def [symmetric])
    then show ?thesis using 1 w0 by (simp add: monthStart_simps w_def)
  next
    case 2
    then have "MonthFromTime t = 1"
      by (simp add: MonthFromTime_def Let_def w_def [symmetric] l_def [symmetric])
    then show ?thesis using 2 by (simp add: monthStart_simps w_def l_def)
  next
    case 3
    then have "MonthFromTime t = 2" using l0
      by (simp add: MonthFromTime_def Let_def w_def [symmetric] l_def [symmetric])
    then show ?thesis using 3 by (simp add: monthStart_simps w_def l_def)
  next
    case 4
    then have "MonthFromTime t = 3" using l0
      by (simp add: MonthFromTime_def Let_def w_def [symmetric] l_def [symmetric])
    then show ?thesis using 4 by (simp add: monthStart_simps w_def l_def)
  next
    case 5
    then have "MonthFromTime t = 4" using l0
      by (simp add: MonthFromTime_def Let_def w_def [symmetric] l_def [symmetric])
    then show ?thesis using 5 by (simp add: monthStart_simps w_def l_def)
  next
    case 6
    then have "MonthFromTime t = 5" using l0
      by (simp add: MonthFromTime_def Let_def w_def [symmetric] l_def [symmetric])
    then show ?thesis using 6 by (simp add: monthStart_simps w_def l_def)
  next
    case 7
    then have "MonthFromTime t = 6" using l0
      by (simp add: MonthFromTime_def Let_def w_def [symmetric] l_def [symmetric])
    then show ?thesis using 7 by (simp add: monthStart_simps w_def l_def)
  next
    case 8
    then have "MonthFromTime t = 7" using l0
      by (simp add: MonthFromTime_def Let_def w_def [symmetric] l_def [symmetric])
    then show ?thesis using 8 by (simp add: monthStart_simps w_def l_def)
  next
    case 9
    then have "MonthFromTime t = 8" using l0
      by (simp add: MonthFromTime_def Let_def w_def [symmetric] l_def [symmetric])
    then show ?thesis using 9 by (simp add: monthStart_simps w_def l_def)
  next
    case 10
    then have "MonthFromTime t = 9" using l0
      by (simp add: MonthFromTime_def Let_def w_def [symmetric] l_def [symmetric])
    then show ?thesis using 10 by (simp add: monthStart_simps w_def l_def)
  next
    case 11
    then have "MonthFromTime t = 10" using l0
      by (simp add: MonthFromTime_def Let_def w_def [symmetric] l_def [symmetric])
    then show ?thesis using 11 by (simp add: monthStart_simps w_def l_def)
  next
    case 12
    then have "MonthFromTime t = 11" using l0
      by (simp add: MonthFromTime_def Let_def w_def [symmetric] l_def [symmetric])
    then show ?thesis using 12 by (simp add: monthStart_simps w_def l_def)
  qed
qed

lemma MonthFromTime_range: "0 \<le> MonthFromTime t" "MonthFromTime t \<le> 11"
  using month_bracket [of t] by simp_all

lemma monthStart_le_DayWithinYear:
  "monthStart (InLeapYear t) (MonthFromTime t) \<le> DayWithinYear t"
  using month_bracket [of t] by simp

lemma DayWithinYear_less_next:
  "MonthFromTime t < 11 \<Longrightarrow> DayWithinYear t < monthStart (InLeapYear t) (MonthFromTime t + 1)"
  using month_bracket [of t] by simp

lemma monthStart_step:
  assumes "0 \<le> mn" "mn \<le> 10" "0 \<le> l" "l \<le> 1"
  shows "monthStart l mn + 28 \<le> monthStart l (mn + 1)"
    and "monthStart l (mn + 1) \<le> monthStart l mn + 31"
proof -
  have "mn \<le> 11" using assms by simp
  with assms(1) have
    "monthStart l mn + 28 \<le> monthStart l (mn + 1) \<and> monthStart l (mn + 1) \<le> monthStart l mn + 31"
    using assms(2-4) by (cases mn rule: month_cases) (simp_all add: monthStart_simps)
  then show "monthStart l mn + 28 \<le> monthStart l (mn + 1)"
    and "monthStart l (mn + 1) \<le> monthStart l mn + 31" by simp_all
qed

lemma monthStart_range:
  assumes "0 \<le> mn" "mn \<le> 11" "0 \<le> l"
  shows "0 \<le> monthStart l mn" "monthStart l mn \<le> 334 + l"
proof -
  have "0 \<le> monthStart l mn \<and> monthStart l mn \<le> 334 + l"
    using assms(1,2) assms(3) by (cases mn rule: month_cases) (simp_all add: monthStart_simps)
  then show "0 \<le> monthStart l mn" "monthStart l mn \<le> 334 + l" by simp_all
qed

lemma DateFromTime_range: "1 \<le> DateFromTime t" "DateFromTime t \<le> 31"
proof -
  have l: "0 \<le> InLeapYear t" "InLeapYear t \<le> 1"
    using InLeapYear_cases [of t] by auto
  show "1 \<le> DateFromTime t"
    using monthStart_le_DayWithinYear [of t] by (simp add: DateFromTime_def)
  show "DateFromTime t \<le> 31"
  proof (cases "MonthFromTime t < 11")
    case True
    then have "monthStart (InLeapYear t) (MonthFromTime t + 1)
        \<le> monthStart (InLeapYear t) (MonthFromTime t) + 31"
      using MonthFromTime_range(1) [of t] l by (intro monthStart_step) simp_all
    with DayWithinYear_less_next [OF True] show ?thesis by (simp add: DateFromTime_def)
  next
    case False
    then have "MonthFromTime t = 11" using MonthFromTime_range(2) [of t] by simp
    then show ?thesis
      using DayWithinYear_bounds(2) [of t] by (simp add: DateFromTime_def monthStart_simps)
  qed
qed

lemma MakeDay_simple:
  "0 \<le> m \<Longrightarrow> m \<le> 11 \<Longrightarrow>
   MakeDay y m d = DayFromYear y + monthStart (DaysInYear y - 365) m + d - 1"
  by (simp add: MakeDay_def Let_def DaysInYear_def)

text \<open>The calendar fields of a time value name its day.\<close>

lemma MakeDay_fields: "MakeDay (YearFromTime t) (MonthFromTime t) (DateFromTime t) = Day t"
  using MonthFromTime_range [of t] InLeapYear_DaysInYear [of t]
  by (simp add: MakeDay_simple DateFromTime_def DayWithinYear_def)

lemma MakeDay_index: "MakeDay y m d = MakeDay 0 (12 * y + m) d"
  by (simp add: MakeDay_def)

lemma MakeDay_date: "MakeDay y m d = MakeDay y m 1 + d - 1"
  by (simp add: MakeDay_def Let_def)

lemma MakeDay_next_month:
  "MakeDay y m d + 28 \<le> MakeDay y (m + 1) d" "MakeDay y (m + 1) d \<le> MakeDay y m d + 31"
proof -
  define ym where "ym = y + m div 12"
  define mn where "mn = m mod 12"
  define l where "l = DaysInYear ym - 365"
  have mn: "0 \<le> mn" "mn \<le> 11" by (simp_all add: mn_def)
  have l: "l = 0 \<or> l = 1" by (auto simp: l_def DaysInYear_def)
  have cur: "MakeDay y m d = DayFromYear ym + monthStart l mn + d - 1"
    by (simp add: MakeDay_def Let_def ym_def mn_def l_def DaysInYear_def)
  have nxt: "MakeDay y (m + 1) d =
      (if mn = 11 then DayFromYear ym + (365 + l) + d - 1
       else DayFromYear ym + monthStart l (mn + 1) + d - 1)"
  proof (cases "mn = 11")
    case True
    then have "(m + 1) mod 12 = 0"
      unfolding mn_def using mod_add_left_eq [of m 12 1] by simp
    moreover from this have "(m + 1) div 12 = m div 12 + 1"
      using div_succ [of 12 m] by simp
    ultimately show ?thesis
      using True DayFromYear_Suc [of ym]
      by (simp add: MakeDay_def Let_def ym_def l_def monthStart_def add.assoc)
  next
    case False
    then have "(m + 1) mod 12 = mn + 1"
      unfolding mn_def using mod_add_left_eq [of m 12 1] mn by (simp add: mn_def)
    moreover from this have "(m + 1) div 12 = m div 12"
      using div_succ [of 12 m] mn by simp
    ultimately show ?thesis
      using False by (simp add: MakeDay_def Let_def ym_def l_def DaysInYear_def)
  qed
  have l01: "0 \<le> l" "l \<le> 1" using l by auto
  have step: "monthStart l mn + 28 \<le> monthStart l (mn + 1)
      \<and> monthStart l (mn + 1) \<le> monthStart l mn + 31" if "mn \<noteq> 11"
    using monthStart_step [of mn l] mn that l01 by simp
  have last: "mn = 11 \<Longrightarrow> monthStart l mn = 334 + l"
    by (simp add: monthStart_def)
  show "MakeDay y m d + 28 \<le> MakeDay y (m + 1) d"
    using cur nxt step last by (cases "mn = 11") simp_all
  show "MakeDay y (m + 1) d \<le> MakeDay y m d + 31"
    using cur nxt step last by (cases "mn = 11") simp_all
qed

lemma MakeDay_mono_month: "m \<le> m' \<Longrightarrow> MakeDay y m d + 28 * (m' - m) \<le> MakeDay y m' d"
proof (induction "nat (m' - m)" arbitrary: m')
  case 0
  then show ?case by simp
next
  case (Suc n)
  then have "n = nat ((m' - 1) - m)" "m \<le> m' - 1" by linarith+
  then have "MakeDay y m d + 28 * ((m' - 1) - m) \<le> MakeDay y (m' - 1) d"
    using Suc.hyps(1) by blast
  moreover have "MakeDay y (m' - 1) d + 28 \<le> MakeDay y m' d"
    using MakeDay_next_month(1) [of y "m' - 1" d] by simp
  ultimately show ?case by (simp add: algebra_simps)
qed

text \<open>The day of a time value lies before the first day of the following month.\<close>

lemma Day_less_next_month: "Day t < MakeDay (YearFromTime t) (MonthFromTime t + 1) 1"
proof (cases "MonthFromTime t < 11")
  case True
  then have "MakeDay (YearFromTime t) (MonthFromTime t + 1) 1 =
      DayFromYear (YearFromTime t) + monthStart (InLeapYear t) (MonthFromTime t + 1)"
    using MonthFromTime_range(1) [of t] InLeapYear_DaysInYear [of t]
    by (simp add: MakeDay_simple)
  with DayWithinYear_less_next [OF True] show ?thesis
    by (simp add: DayWithinYear_def)
next
  case False
  then have m: "MonthFromTime t = 11" using MonthFromTime_range(2) [of t] by simp
  have "MakeDay (YearFromTime t) 12 1 = DayFromYear (YearFromTime t + 1)"
    by (simp add: MakeDay_def monthStart_def)
  with m show ?thesis
    using DayWithinYear_bounds(2) [of t] DayFromYear_Suc [of "YearFromTime t"]
      InLeapYear_DaysInYear [of t]
    by (simp add: DayWithinYear_def)
qed



lemma Day_MakeDate:
  "0 \<le> tod \<Longrightarrow> tod < msPerDay \<Longrightarrow> Day (MakeDate d tod) = d"
  "0 \<le> tod \<Longrightarrow> tod < msPerDay \<Longrightarrow> TimeWithinDay (MakeDate d tod) = tod"
proof -
  assume tod: "0 \<le> tod" "tod < msPerDay"
  have e: "MakeDate d tod = msPerDay * d + tod" by (simp add: MakeDate_def)
  show "Day (MakeDate d tod) = d"
    unfolding Day_def by (rule int_div_pos_eq [OF e tod])
  show "TimeWithinDay (MakeDate d tod) = tod"
    unfolding TimeWithinDay_def by (rule int_mod_pos_eq [OF e tod])
qed

lemma time_split: "t = MakeDate (Day t) (TimeWithinDay t)"
  by (simp add: MakeDate_def Day_def TimeWithinDay_def)

lemma TimeWithinDay_range: "0 \<le> TimeWithinDay t" "TimeWithinDay t < msPerDay"
  by (simp_all add: TimeWithinDay_def msPerDay_def)

lemma fields_of_MakeDay:
  assumes d: "1 \<le> d" "d \<le> 28" and t: "Day t = MakeDay y m d"
  shows "YearFromTime t = y + m div 12"
    and "MonthFromTime t = m mod 12"
    and "DateFromTime t = d"
proof -
  define ym where "ym = y + m div 12"
  define mn where "mn = m mod 12"
  define l where "l = DaysInYear ym - 365"
  have mn: "0 \<le> mn" "mn \<le> 11" by (simp_all add: mn_def)
  have l: "l = 0 \<or> l = 1" by (auto simp: l_def DaysInYear_def)
  have day: "Day t = DayFromYear ym + monthStart l mn + d - 1"
    using t by (simp add: MakeDay_def Let_def ym_def mn_def l_def DaysInYear_def)
  have l01: "0 \<le> l" "l \<le> 1" using l by auto
  have ms: "0 \<le> monthStart l mn" "monthStart l mn \<le> 334 + l"
    using monthStart_range [OF mn l01(1)] by simp_all
  have "DayFromYear ym \<le> Day t" using day ms d by linarith
  moreover have "Day t < DayFromYear (ym + 1)"
    using day ms d DayFromYear_Suc [of ym] by (simp add: l_def)
  ultimately have Y: "YearFromTime t = ym"
    unfolding YearFromTime_def by (rule YearFromDay_unique)
  then show "YearFromTime t = y + m div 12" by (simp add: ym_def)
  have leap: "InLeapYear t = l"
    using Y by (auto simp: InLeapYear_def l_def DaysInYear_def)
  have w: "DayWithinYear t = monthStart l mn + d - 1"
    using day Y by (simp add: DayWithinYear_def)
  have M: "MonthFromTime t = mn"
    unfolding MonthFromTime_def Let_def leap w
    using mn(1) mn(2) l01 d by (cases mn rule: month_cases) (simp_all add: monthStart_simps)
  then show "MonthFromTime t = m mod 12" by (simp add: mn_def)
  show "DateFromTime t = d"
    unfolding DateFromTime_def M leap w by simp
qed


lemma msPerDay_pos: "0 < msPerDay"
  by (simp add: msPerDay_def)

lemma Day_monthDay: "Day (monthDay I d) = MakeDay 0 I d"
  unfolding monthDay_def using msPerDay_pos by (intro Day_MakeDate) simp_all

lemma TimeWithinDay_monthDay: "TimeWithinDay (monthDay I d) = 0"
  unfolding monthDay_def using msPerDay_pos by (intro Day_MakeDate) simp_all

lemma monthDay_fields:
  assumes "1 \<le> d" "d \<le> 28"
  shows "YearFromTime (monthDay I d) = I div 12"
    and "MonthFromTime (monthDay I d) = I mod 12"
    and "DateFromTime (monthDay I d) = d"
  using fields_of_MakeDay [OF assms Day_monthDay [of I d]] by simp_all

lemma monthDay_eq: "monthDay I d = MakeDay 0 I d * msPerDay"
  by (simp add: monthDay_def MakeDate_def)

lemma monthDay_mono: "I \<le> J \<Longrightarrow> monthDay I d \<le> monthDay J d"
  using MakeDay_mono_month [of I J 0 d] msPerDay_pos
  by (simp add: monthDay_eq)

lemma MakeDay_strict_month: "m < m' \<Longrightarrow> MakeDay y m d + 28 \<le> MakeDay y m' d"
proof -
  assume "m < m'"
  then have "MakeDay y (m + 1) d + 28 * (m' - (m + 1)) \<le> MakeDay y m' d"
    by (intro MakeDay_mono_month) simp
  moreover have "0 \<le> 28 * (m' - (m + 1))" using \<open>m < m'\<close> by simp
  ultimately show ?thesis using MakeDay_next_month(1) [of y m d] by linarith
qed

lemma monthDay_strict: "I < J \<Longrightarrow> monthDay I d < monthDay J d"
proof -
  assume "I < J"
  then have "MakeDay 0 I d < MakeDay 0 J d"
    using MakeDay_strict_month [of I J 0 d] by linarith
  then show ?thesis using msPerDay_pos by (simp add: monthDay_eq)
qed

lemma monthDay_le_iff: "monthDay I d \<le> monthDay J d \<longleftrightarrow> I \<le> J"
  using monthDay_mono [of I J d] monthDay_strict [of J I d] by linarith

lemma monthDay_date: "monthDay I d = monthDay I 1 + (d - 1) * msPerDay"
  unfolding monthDay_eq by (subst MakeDay_date) (simp add: algebra_simps)

lemma DayFromYear_100: "- 700000 \<le> DayFromYear 100"
  by (simp add: DayFromYear_def)

lemma DayFromYear_270002: "DayFromYear 270002 \<le> 98000000"
  by (simp add: DayFromYear_def)

lemma monthDay_valid:
  assumes I: "1200 \<le> I" "I \<le> 3240035" and d: "1 \<le> d" "d \<le> 31"
  shows "TimeClip (monthDay I d) = Some (monthDay I d)"
proof -
  define ym where "ym = I div 12"
  define mn where "mn = I mod 12"
  define l where "l = DaysInYear ym - 365"
  have mn: "0 \<le> mn" "mn \<le> 11" by (simp_all add: mn_def)
  have l: "0 \<le> l" "l \<le> 1" by (auto simp: l_def DaysInYear_def)
  have ym: "100 \<le> ym" "ym \<le> 270002" using I unfolding ym_def by linarith+
  have day: "MakeDay 0 I d = DayFromYear ym + monthStart l mn + d - 1"
    by (simp add: MakeDay_def Let_def ym_def mn_def l_def DaysInYear_def)
  have ms: "0 \<le> monthStart l mn" "monthStart l mn \<le> 334 + l"
    using monthStart_range [OF mn l(1)] by simp_all
  have "- 700000 \<le> DayFromYear ym" "DayFromYear ym \<le> 98000000"
    using DayFromYear_mono [OF ym(1)] DayFromYear_mono [OF ym(2)]
      DayFromYear_100 DayFromYear_270002 by linarith+
  then have "- 100000000 \<le> MakeDay 0 I d" "MakeDay 0 I d \<le> 100000000"
    using day ms d l by linarith+
  then have "\<bar>monthDay I d\<bar> \<le> 8640000000000000"
    by (simp add: monthDay_eq msPerDay_def abs_le_iff)
  then show ?thesis by (simp add: TimeClip_def)
qed

lemma newDate3_monthDay:
  assumes "100 \<le> y"
  shows "newDate3 (Some y) (Some m) (Some d) = TimeClip (monthDay (12 * y + m) d)"
  using assms MakeDay_index [of y m d]
  by (simp add: newDate3_def newDate5_def monthDay_def MakeTime_def)


lemma getters_monthDay:
  assumes "1 \<le> d" "d \<le> 28"
  shows "getFullYear (Some (monthDay I d)) = Some (I div 12)"
    and "getMonth (Some (monthDay I d)) = Some (I mod 12)"
    and "getDate (Some (monthDay I d)) = Some d"
  using monthDay_fields [OF assms, of I]
  by (simp_all add: getFullYear_def getMonth_def getDate_def)

lemma next_month_date:
  assumes "1200 \<le> I" "I \<le> 3240000" "1 \<le> d" "d \<le> 28"
  shows "newDate3 (Some (I div 12)) (num_add (Some (I mod 12)) 1) (Some d) = Some (monthDay (I + 1) d)"
proof -
  have "100 \<le> I div 12" using assms(1) by linarith
  then have "newDate3 (Some (I div 12)) (Some (I mod 12 + 1)) (Some d)
      = TimeClip (monthDay (12 * (I div 12) + (I mod 12 + 1)) d)"
    by (rule newDate3_monthDay)
  also have "12 * (I div 12) + (I mod 12 + 1) = I + 1" by simp
  also have "TimeClip (monthDay (I + 1) d) = Some (monthDay (I + 1) d)"
    using assms by (intro monthDay_valid) simp_all
  finally show ?thesis by (simp add: num_add_def)
qed

lemma month_wraps: "(I + 1) mod 12 < I mod 12 \<longleftrightarrow> I mod 12 = (11::int)"
proof (cases "I mod 12 = 11")
  case True
  then have "(I + 1) mod 12 = 0" using mod_add_left_eq [of I 12 1] by simp
  with True show ?thesis by simp
next
  case False
  have "0 \<le> I mod 12" "I mod 12 < 12" by simp_all
  with False have "I mod 12 + 1 < 12" by linarith
  then have "(I + 1) mod 12 = I mod 12 + 1"
    using mod_add_left_eq [of I 12 1] by simp
  with False show ?thesis by simp
qed

lemma overflow_year_date:
  assumes "1200 \<le> I" "I \<le> 3240000"
  shows "setFullYear (Some (monthDay (I + 1) 14)) (num_add (Some ((I + 1) div 12)) 1)
    = Some (monthDay (I + 13) 14)"
proof -
  have f: "MonthFromTime (monthDay (I + 1) 14) = (I + 1) mod 12"
    "DateFromTime (monthDay (I + 1) 14) = 14"
    using monthDay_fields [of 14 "I + 1"] by simp_all
  have "MakeDay ((I + 1) div 12 + 1) ((I + 1) mod 12) 14 = MakeDay 0 (I + 13) 14"
    by (subst MakeDay_index) (simp add: algebra_simps)
  then have "setFullYear (Some (monthDay (I + 1) 14)) (num_add (Some ((I + 1) div 12)) 1)
      = TimeClip (MakeDate (MakeDay 0 (I + 13) 14) 0)"
    by (simp add: setFullYear_def num_add_def Let_def f TimeWithinDay_monthDay)
  also have "\<dots> = Some (monthDay (I + 13) 14)"
    unfolding monthDay_def [symmetric]
    using assms by (intro monthDay_valid) simp_all
  finally show ?thesis .
qed

lemma periodsLoop_step:
  assumes I: "1200 \<le> I" "I \<le> 3240000" and i: "i < maxIterations"
    and le: "monthDay I 15 \<le> te"
  shows "periodsLoop (Some (monthDay I 15)) (Some te) i ps
    = periodsLoop (Some (monthDay (I + 1) 15)) (Some te) (i + 1) (ps @ [periodAt te I])"
proof -
  have g15: "getFullYear (Some (monthDay I 15)) = Some (I div 12)"
    "getMonth (Some (monthDay I 15)) = Some (I mod 12)"
    using getters_monthDay [of 15 I] by simp_all
  have ce0: "newDate3 (Some (I div 12)) (num_add (Some (I mod 12)) 1) (Some 14)
      = Some (monthDay (I + 1) 14)"
    using I by (intro next_month_date) simp_all
  have n0: "newDate3 (Some (I div 12)) (num_add (Some (I mod 12)) 1) (Some 15)
      = Some (monthDay (I + 1) 15)"
    using I by (intro next_month_date) simp_all
  have g14: "getFullYear (Some (monthDay (I + 1) 14)) = Some ((I + 1) div 12)"
    "getMonth (Some (monthDay (I + 1) 14)) = Some ((I + 1) mod 12)"
    using getters_monthDay [of 14 "I + 1"] by simp_all
  have gn: "getMonth (Some (monthDay (I + 1) 15)) = Some ((I + 1) mod 12)"
    using getters_monthDay [of 15 "I + 1"] by simp
  have nogt: "\<not> 11 < (I + 1) mod 12"
    by (simp add: not_less)
  have ov: "setFullYear (Some (monthDay (I + 1) 14)) (num_add (Some ((I + 1) div 12)) 1)
      = Some (monthDay (I + 13) 14)"
    using I by (rule overflow_year_date)
  show ?thesis
  proof (cases "I mod 12 = 11")
    case True
    have w: "(I + 1) mod 12 < I mod 12" using True month_wraps [of I] by blast
    show ?thesis
      apply (subst periodsLoop.simps)
      apply (simp add: num_le_def le i Let_def g15 ce0 n0 g14 gn ov
          num_gt_def num_lt_def w nogt)
      apply (simp add: periodAt_def cycleEnd_def True min_def)
      done
  next
    case False
    have w: "\<not> (I + 1) mod 12 < I mod 12" using False month_wraps [of I] by blast
    show ?thesis
      apply (subst periodsLoop.simps)
      apply (simp add: num_le_def le i Let_def g15 ce0 n0 g14 gn
          num_gt_def num_lt_def w nogt)
      apply (simp add: periodAt_def cycleEnd_def False min_def)
      done
  qed
qed

lemma periodsLoop_stop:
  assumes "\<not> (num_le cs e \<and> i < maxIterations)"
  shows "periodsLoop cs e i ps = (ps, i)"
  by (subst periodsLoop.simps) (simp only: assms if_False)

lemma map_upt_shift: "map f [0..<Suc n] = f 0 # map (\<lambda>k. f (Suc k)) [0..<n]"
  by (simp add: map_upt_Suc del: upt_Suc)

lemma periodsLoop_closed:
  assumes "1200 \<le> I" "te \<le> monthDay 3240000 15"
  shows "periodsLoop (Some (monthDay I 15)) (Some te) i ps =
    (ps @ map (\<lambda>k. periodAt te (I + int k)) [0..<cycles I te (maxIterations - i)],
     i + cycles I te (maxIterations - i))"
  using assms(1)
proof (induction "maxIterations - i" arbitrary: I i ps)
  case 0
  then have "\<not> i < maxIterations" by simp
  then have "periodsLoop (Some (monthDay I 15)) (Some te) i ps = (ps, i)"
    by (intro periodsLoop_stop) simp
  with 0 show ?case by simp
next
  case (Suc f)
  then have i: "i < maxIterations" and f: "f = maxIterations - (i + 1)" by simp_all
  show ?case
  proof (cases "monthDay I 15 \<le> te")
    case True
    then have "monthDay I 15 \<le> monthDay 3240000 15" using assms(2) by simp
    then have up: "I \<le> 3240000" by (simp add: monthDay_le_iff)
    have "periodsLoop (Some (monthDay I 15)) (Some te) i ps
        = periodsLoop (Some (monthDay (I + 1) 15)) (Some te) (i + 1) (ps @ [periodAt te I])"
      using Suc.prems up i True by (rule periodsLoop_step)
    also have "\<dots> = ((ps @ [periodAt te I])
          @ map (\<lambda>k. periodAt te (I + 1 + int k)) [0..<cycles (I + 1) te f],
        i + 1 + cycles (I + 1) te f)"
      unfolding f using Suc.prems by (intro Suc.hyps(1) [OF f]) simp
    finally show ?thesis
      using True Suc.hyps(2) [symmetric]
      by (simp add: map_upt_shift algebra_simps del: upt_Suc)
  next
    case False
    then have "periodsLoop (Some (monthDay I 15)) (Some te) i ps = (ps, i)"
      by (intro periodsLoop_stop) (simp add: num_le_def)
    with False Suc.hyps(2) [symmetric] show ?thesis by simp
  qed
qed

section \<open>The period loop\<close>


lemma time_day_bounds: "Day t * msPerDay \<le> t" "t < (Day t + 1) * msPerDay"
  using div_bounds [of msPerDay t] msPerDay_pos
  by (simp_all add: Day_def algebra_simps)

lemma YearFromTime_mono_bound:
  assumes "YearFromTime t \<le> y"
  shows "Day t < DayFromYear (y + 1)"
proof -
  have "Day t < DayFromYear (YearFromTime t + 1)"
    using YearFromDay_bounds [of "Day t"] by (simp add: YearFromTime_def)
  moreover have "DayFromYear (YearFromTime t + 1) \<le> DayFromYear (y + 1)"
    using assms by (intro DayFromYear_mono) simp
  ultimately show ?thesis by linarith
qed

lemma MakeDay_year_start: "MakeDay 0 (12 * y) 1 = DayFromYear y"
  by (simp add: MakeDay_def monthStart_def)

lemma year_bound_monthDay:
  assumes "YearFromTime t \<le> y"
  shows "t < monthDay (12 * (y + 1)) 1"
proof -
  have "Day t + 1 \<le> MakeDay 0 (12 * (y + 1)) 1"
    using YearFromTime_mono_bound [OF assms] by (simp only: MakeDay_year_start)
  then have "(Day t + 1) * msPerDay \<le> MakeDay 0 (12 * (y + 1)) 1 * msPerDay"
    using msPerDay_pos by (simp only: mult_le_cancel_right) simp
  with time_day_bounds(2) [of t] show ?thesis by (simp add: monthDay_eq)
qed

lemma startIndex_bounds:
  "monthDay (startIndex ts) 15 \<le> ts" "ts < monthDay (startIndex ts + 1) 15"
proof -
  define J where "J = 12 * YearFromTime ts + MonthFromTime ts"
  define b where "b = MakeDay 0 J 1"
  have day: "Day ts = b + DateFromTime ts - 1"
    using MakeDay_fields [of ts] MakeDay_index [of "YearFromTime ts" "MonthFromTime ts" "DateFromTime ts"]
      MakeDay_date [of 0 J "DateFromTime ts"]
    by (simp add: J_def b_def)
  have nxt: "Day ts < MakeDay 0 (J + 1) 1"
    using Day_less_next_month [of ts]
      MakeDay_index [of "YearFromTime ts" "MonthFromTime ts + 1" 1]
    by (simp add: J_def add.assoc)
  have prev: "MakeDay 0 (J - 1) 15 + 28 \<le> b + 14"
    using MakeDay_next_month(1) [of 0 "J - 1" 15] MakeDay_date [of 0 J 15] by (simp add: b_def)
  have d15: "MakeDay 0 J 15 = b + 14" using MakeDay_date [of 0 J 15] by (simp add: b_def)
  have n15: "MakeDay 0 (J + 1) 15 = MakeDay 0 (J + 1) 1 + 14"
    using MakeDay_date [of 0 "J + 1" 15] by simp
  have lo: "MakeDay 0 (startIndex ts) 15 \<le> Day ts"
    using day prev d15 DateFromTime_range(1) [of ts]
    by (auto simp: startIndex_def J_def [symmetric])
  have hi: "Day ts + 1 \<le> MakeDay 0 (startIndex ts + 1) 15"
    using day nxt d15 n15 by (auto simp: startIndex_def J_def [symmetric])
  have "MakeDay 0 (startIndex ts) 15 * msPerDay \<le> Day ts * msPerDay"
    using lo msPerDay_pos by (simp only: mult_le_cancel_right) simp
  with time_day_bounds(1) [of ts] show "monthDay (startIndex ts) 15 \<le> ts"
    by (simp add: monthDay_eq)
  have "(Day ts + 1) * msPerDay \<le> MakeDay 0 (startIndex ts + 1) 15 * msPerDay"
    using hi msPerDay_pos by (simp only: mult_le_cancel_right) simp
  with time_day_bounds(2) [of ts] show "ts < monthDay (startIndex ts + 1) 15"
    by (simp add: monthDay_eq)
qed

lemma firstStart_monthDay:
  assumes "101 \<le> YearFromTime ts" "YearFromTime ts \<le> 270000"
  shows "firstStart (Some ts) = Some (monthDay (startIndex ts) 15)"
proof -
  define Y where "Y = YearFromTime ts"
  define M where "M = MonthFromTime ts"
  have M: "0 \<le> M" "M \<le> 11" using MonthFromTime_range [of ts] by (simp_all add: M_def)
  have Y: "100 \<le> Y" "Y \<le> 270000" using assms by (simp_all add: Y_def)
  have v: "TimeClip (monthDay (12 * Y + M + k) 15) = Some (monthDay (12 * Y + M + k) 15)"
    if "k = 0 \<or> k = - 1" for k
    using that Y M assms(1) by (intro monthDay_valid) (auto simp: Y_def)
  have a: "newDate3 (Some Y) (Some M) (Some 15) = Some (monthDay (12 * Y + M) 15)"
    using newDate3_monthDay [OF Y(1), of M 15] v [of 0] by simp
  have b: "newDate3 (Some Y) (Some (M - 1)) (Some 15) = Some (monthDay (12 * Y + M - 1) 15)"
    using newDate3_monthDay [OF Y(1), of "M - 1" 15] v [of "- 1"] by (simp add: algebra_simps)
  have g: "getMonth (Some (monthDay I 15)) = Some (I mod 12)" for I
    using getters_monthDay [of 15 I] by simp
  have s: "getFullYear (Some ts) = Some Y" "getMonth (Some ts) = Some M"
    "getDate (Some ts) = Some (DateFromTime ts)"
    by (simp_all add: getFullYear_def getMonth_def getDate_def Y_def M_def)
  have nm: "\<not> I mod 12 < 0" for I :: int by (simp add: not_less)
  show ?thesis
    by (simp add: firstStart_def Let_def s num_add_def a b g num_lt_def nm startIndex_def
        Y_def [symmetric] M_def [symmetric])
qed

lemma cycles_le: "cycles I te f \<le> f"
  by (induction f arbitrary: I) simp_all

lemma cycles_guard: "k < cycles I te f \<Longrightarrow> monthDay (I + int k) 15 \<le> te"
proof (induction f arbitrary: I k)
  case 0
  then show ?case by simp
next
  case (Suc f)
  then have le: "monthDay I 15 \<le> te" by (simp split: if_splits)
  show ?case
  proof (cases k)
    case 0
    with le show ?thesis by simp
  next
    case (Suc j)
    with Suc.prems le have "j < cycles (I + 1) te f" by simp
    then have "monthDay (I + 1 + int j) 15 \<le> te" by (rule Suc.IH)
    with Suc show ?thesis by (simp add: algebra_simps)
  qed
qed

lemma cycles_exit: "cycles I te f < f \<Longrightarrow> te < monthDay (I + int (cycles I te f)) 15"
proof (induction f arbitrary: I)
  case 0
  then show ?case by simp
next
  case (Suc f)
  show ?case
  proof (cases "monthDay I 15 \<le> te")
    case True
    with Suc.prems have "cycles (I + 1) te f < f" by simp
    then have "te < monthDay (I + 1 + int (cycles (I + 1) te f)) 15" by (rule Suc.IH)
    with True show ?thesis by (simp add: algebra_simps)
  next
    case False
    then show ?thesis by simp
  qed
qed

lemma cycles_full: "(\<And>k. k < f \<Longrightarrow> monthDay (I + int k) 15 \<le> te) \<Longrightarrow> cycles I te f = f"
proof (induction f arbitrary: I)
  case 0
  then show ?case by simp
next
  case (Suc f)
  have "monthDay I 15 \<le> te" using Suc.prems [of 0] by simp
  moreover have "cycles (I + 1) te f = f"
  proof (rule Suc.IH)
    fix k assume "k < f"
    then show "monthDay (I + 1 + int k) 15 \<le> te"
      using Suc.prems [of "Suc k"] by (simp add: algebra_simps)
  qed
  ultimately show ?case by simp
qed

lemma cycles_pos: "0 < f \<Longrightarrow> monthDay I 15 \<le> te \<Longrightarrow> 0 < cycles I te f"
  by (cases f) simp_all

lemma generateMonthPeriods_closed:
  assumes "101 \<le> YearFromTime ts" "YearFromTime ts \<le> 270000" "YearFromTime te \<le> 269999"
  shows "generateMonthPeriods (Some ts) (Some te) =
    \<lparr>periods = map (\<lambda>k. periodAt te (startIndex ts + int k))
        [0..<cycles (startIndex ts) te maxIterations],
     console_errors =
       (if cycles (startIndex ts) te maxIterations \<ge> maxIterations
        then [MaxIterationsReached] else [])\<rparr>"
proof -
  have "12 * YearFromTime ts - 1 \<le> startIndex ts"
    using MonthFromTime_range(1) [of ts] by (simp add: startIndex_def)
  with assms(1) have I: "1200 \<le> startIndex ts" by linarith
  have "te < monthDay (12 * (269999 + 1)) 1" using assms(3) by (rule year_bound_monthDay)
  also have "\<dots> \<le> monthDay 3240000 15"
    using monthDay_date [of 3240000 15] msPerDay_pos by simp
  finally have te: "te \<le> monthDay 3240000 15" by simp
  show ?thesis
    unfolding generateMonthPeriods_def firstStart_monthDay [OF assms(1,2)]
      periodsLoop_closed [OF I te]
    by simp
qed


lemma Day_mono: "t \<le> t' \<Longrightarrow> Day t \<le> Day t'"
  unfolding Day_def using msPerDay_pos by (intro zdiv_mono1) simp_all

lemma Day_less: "t < d * msPerDay \<Longrightarrow> Day t < d"
proof -
  assume "t < d * msPerDay"
  with time_day_bounds(1) [of t] have "Day t * msPerDay < d * msPerDay" by linarith
  then show ?thesis using msPerDay_pos by (auto simp: mult_less_cancel_right)
qed

lemma YearFromTime_mono: "t \<le> t' \<Longrightarrow> YearFromTime t \<le> YearFromTime t'"
proof (rule ccontr)
  assume le: "t \<le> t'" and "\<not> YearFromTime t \<le> YearFromTime t'"
  then have "DayFromYear (YearFromTime t' + 1) \<le> DayFromYear (YearFromTime t)"
    by (intro DayFromYear_mono) simp
  moreover have "DayFromYear (YearFromTime t) \<le> Day t"
    using YearFromDay_bounds [of "Day t"] by (simp add: YearFromTime_def)
  moreover have "Day t' < DayFromYear (YearFromTime t' + 1)"
    using YearFromDay_bounds [of "Day t'"] by (simp add: YearFromTime_def)
  ultimately show False using Day_mono [OF le] by linarith
qed

lemma monthDay_15_before_next_14: "monthDay I 15 < monthDay (I + 1) 14"
proof -
  have "MakeDay 0 I 15 = MakeDay 0 I 14 + 1"
    using MakeDay_date [of 0 I 15] MakeDay_date [of 0 I 14] by simp
  with MakeDay_next_month(1) [of 0 I 14] have "MakeDay 0 I 15 < MakeDay 0 (I + 1) 14"
    by linarith
  then show ?thesis using msPerDay_pos by (simp add: monthDay_eq)
qed

lemma monthDay_15_is_day_after_14: "monthDay I 15 = monthDay I 14 + msPerDay"
  using monthDay_date [of I 15] monthDay_date [of I 14] by (simp add: algebra_simps)

lemma cycleEnd_ge: "monthDay (I + 1) 14 \<le> cycleEnd I"
  using monthDay_mono [of "I + 1" "I + 13" 14] by (simp add: cycleEnd_def)

lemma cycles_mono: "t \<le> te \<Longrightarrow> cycles I t f \<le> cycles I te f"
  by (induction f arbitrary: I) auto

lemma day_covered:
  assumes lo: "monthDay I 15 \<le> t" and le: "t \<le> te"
    and n: "cycles I te maxIterations < maxIterations"
  shows "\<exists>k<cycles I te maxIterations.
    Day (monthDay (I + int k) 15) \<le> Day t \<and> Day t \<le> Day (min (cycleEnd (I + int k)) te)"
proof -
  define m where "m = cycles I t maxIterations"
  have m_le: "m \<le> cycles I te maxIterations" unfolding m_def using le by (rule cycles_mono)
  have "0 < m" unfolding m_def using lo by (intro cycles_pos) (simp_all add: maxIterations_def)
  then obtain k where k: "m = Suc k" by (cases m) simp_all
  have "k < m" using k by simp
  then have start: "monthDay (I + int k) 15 \<le> t" unfolding m_def by (rule cycles_guard)
  have "m < maxIterations" using m_le n by simp
  then have "t < monthDay (I + int m) 15" unfolding m_def by (rule cycles_exit)
  then have "t < monthDay (I + int k + 1) 14 + msPerDay"
    using monthDay_15_is_day_after_14 [of "I + int k + 1"] k by (simp add: algebra_simps)
  then have "t < (MakeDay 0 (I + int k + 1) 14 + 1) * msPerDay"
    by (simp add: monthDay_eq algebra_simps)
  then have "Day t < MakeDay 0 (I + int k + 1) 14 + 1" by (rule Day_less)
  then have "Day t \<le> Day (monthDay (I + int k + 1) 14)" by (simp add: Day_monthDay)
  also have "\<dots> \<le> Day (cycleEnd (I + int k))" using cycleEnd_ge by (rule Day_mono)
  finally have "Day t \<le> Day (cycleEnd (I + int k))" .
  moreover have "Day t \<le> Day te" using le by (rule Day_mono)
  ultimately have "Day t \<le> Day (min (cycleEnd (I + int k)) te)" by (simp add: min_def)
  moreover have "k < cycles I te maxIterations" using k m_le by simp
  ultimately show ?thesis using Day_mono [OF start] by blast
qed

lemma periodsLoop_unfold:
  "periodsLoop cs e i ps =
     (if num_le cs e \<and> i < maxIterations
      then periodsLoop (nextStartOf cs) e (i + 1)
        (ps @ [\<lparr>startDate = cs,
                  endDate = (if num_gt (currentEndOf cs) e then e else currentEndOf cs)\<rparr>])
      else (ps, i))"
  by (subst periodsLoop.simps) (simp add: Let_def currentEndOf_def nextStartOf_def)

lemma MakeDay_mono: "m \<le> m' \<Longrightarrow> MakeDay y m d \<le> MakeDay y m' d"
  using MakeDay_strict_month [of m m' y d] by (cases "m = m'") simp_all

lemma MakeDate_mono: "d \<le> d' \<Longrightarrow> MakeDate d tod \<le> MakeDate d' tod"
  using msPerDay_pos by (simp add: MakeDate_def)

lemma newDate3_after:
  assumes "newDate3 (getFullYear (Some a)) (num_add (getMonth (Some a)) 1) (Some 14) = Some c"
  shows "a < c"
proof -
  define Y where "Y = YearFromTime a"
  define M where "M = MonthFromTime a"
  define yr where "yr = (if 0 \<le> Y \<and> Y \<le> 99 then 1900 + Y else Y)"
  have c: "c = MakeDay yr (M + 1) 14 * msPerDay"
    using assms
    by (auto simp: newDate3_def newDate5_def getFullYear_def getMonth_def num_add_def
        TimeClip_def MakeDate_def MakeTime_def Let_def Y_def M_def yr_def split: if_splits)
  have "Y \<le> yr" by (simp add: yr_def)
  then have "MakeDay 0 (12 * Y + (M + 1)) 14 \<le> MakeDay 0 (12 * yr + (M + 1)) 14"
    by (intro MakeDay_mono) simp
  then have "MakeDay Y (M + 1) 14 \<le> MakeDay yr (M + 1) 14"
    by (simp only: MakeDay_index [symmetric])
  moreover have "MakeDay Y (M + 1) 14 = MakeDay Y (M + 1) 1 + 13"
    using MakeDay_date [of Y "M + 1" 14] by simp
  moreover have "Day a < MakeDay Y (M + 1) 1"
    unfolding Y_def M_def by (rule Day_less_next_month)
  ultimately have "Day a + 1 \<le> MakeDay yr (M + 1) 14" by linarith
  then have "(Day a + 1) * msPerDay \<le> MakeDay yr (M + 1) 14 * msPerDay"
    using msPerDay_pos by (simp only: mult_le_cancel_right) simp
  with time_day_bounds(2) [of a] show ?thesis by (simp add: c)
qed

lemma setFullYear_next_after:
  assumes "setFullYear (Some c0) (num_add (getFullYear (Some c0)) 1) = Some c"
  shows "c0 \<le> c"
proof -
  have c: "c = MakeDate (MakeDay (YearFromTime c0 + 1) (MonthFromTime c0) (DateFromTime c0))
      (TimeWithinDay c0)"
    using assms
    by (simp add: setFullYear_def getFullYear_def num_add_def TimeClip_def split: if_splits)
  have "MakeDay 0 (12 * YearFromTime c0 + MonthFromTime c0) (DateFromTime c0)
      \<le> MakeDay 0 (12 * (YearFromTime c0 + 1) + MonthFromTime c0) (DateFromTime c0)"
    by (intro MakeDay_mono) simp
  then have "Day c0 \<le> MakeDay (YearFromTime c0 + 1) (MonthFromTime c0) (DateFromTime c0)"
    by (simp only: MakeDay_index [symmetric] MakeDay_fields)
  then have "MakeDate (Day c0) (TimeWithinDay c0) \<le> c"
    unfolding c by (rule MakeDate_mono)
  then show ?thesis by (simp only: time_split [symmetric])
qed

lemma currentEndOf_after:
  assumes "currentEndOf (Some a) = Some c"
  shows "a < c"
proof -
  define ce0 where "ce0 = newDate3 (getFullYear (Some a)) (num_add (getMonth (Some a)) 1) (Some 14)"
  show ?thesis
  proof (cases "num_lt (getMonth ce0) (getMonth (Some a))")
    case True
    then obtain c0 where c0: "ce0 = Some c0"
      by (cases ce0) (simp_all add: num_lt_def getMonth_def)
    then have "a < c0" unfolding ce0_def by (rule newDate3_after)
    moreover have "setFullYear (Some c0) (num_add (getFullYear (Some c0)) 1) = Some c"
      using assms True c0 by (simp add: currentEndOf_def Let_def ce0_def [symmetric])
    then have "c0 \<le> c" by (rule setFullYear_next_after)
    ultimately show ?thesis by linarith
  next
    case False
    then have "ce0 = Some c"
      using assms by (simp add: currentEndOf_def Let_def ce0_def [symmetric])
    then show ?thesis unfolding ce0_def by (rule newDate3_after)
  qed
qed

lemma pushed_wellOrdered:
  assumes "num_le cs e"
  shows "wellOrdered \<lparr>startDate = cs,
    endDate = (if num_gt (currentEndOf cs) e then e else currentEndOf cs)\<rparr>"
proof -
  from assms obtain a b where ab: "cs = Some a" "e = Some b" "a \<le> b"
    by (cases cs; cases e) (simp_all add: num_le_def)
  show ?thesis
  proof (cases "currentEndOf cs")
    case None
    then show ?thesis using ab by (simp add: wellOrdered_def num_gt_def num_lt_def)
  next
    case (Some c)
    then have "a < c" using ab(1) currentEndOf_after by simp
    then show ?thesis using ab Some
      by (simp add: wellOrdered_def num_gt_def num_lt_def num_le_def)
  qed
qed

lemma periodsLoop_invariant:
  assumes "periodsLoop cs e i ps = (ps', i')" and "\<forall>p\<in>set ps. wellOrdered p"
    and "i \<le> maxIterations"
  shows "(\<forall>p\<in>set ps'. wellOrdered p) \<and> length ps' + i = length ps + i' \<and> i' \<le> maxIterations"
  using assms
proof (induction "maxIterations - i" arbitrary: cs i ps)
  case 0
  then have "periodsLoop cs e i ps = (ps, i)"
    by (intro periodsLoop_stop) simp
  with 0 show ?case by simp
next
  case (Suc f)
  show ?case
  proof (cases "num_le cs e \<and> i < maxIterations")
    case True
    let ?p = "\<lparr>startDate = cs,
      endDate = (if num_gt (currentEndOf cs) e then e else currentEndOf cs)\<rparr>"
    have run: "periodsLoop (nextStartOf cs) e (i + 1) (ps @ [?p]) = (ps', i')"
      using Suc.prems(1) True by (subst (asm) periodsLoop_unfold) simp
    have "wellOrdered ?p" using True by (intro pushed_wellOrdered) simp
    then have ok: "\<forall>p\<in>set (ps @ [?p]). wellOrdered p" using Suc.prems(2) by simp
    have "(\<forall>p\<in>set ps'. wellOrdered p) \<and> length ps' + (i + 1) = length (ps @ [?p]) + i'
        \<and> i' \<le> maxIterations"
      using Suc.hyps(2) True by (intro Suc.hyps(1) [OF _ run ok]) simp_all
    then show ?thesis by simp
  next
    case False
    then have "periodsLoop cs e i ps = (ps, i)"
      by (rule periodsLoop_stop)
    with Suc.prems show ?thesis by simp
  qed
qed

lemma generateMonthPeriods_invariant:
  "(\<forall>p\<in>set (periods (generateMonthPeriods s e)). wellOrdered p)
   \<and> length (periods (generateMonthPeriods s e)) \<le> maxIterations
   \<and> console_errors (generateMonthPeriods s e) =
       (if length (periods (generateMonthPeriods s e)) = maxIterations
        then [MaxIterationsReached] else [])"
proof -
  obtain ps' i' where run: "periodsLoop (firstStart s) e 0 [] = (ps', i')"
    by (cases "periodsLoop (firstStart s) e 0 []")
  have "(\<forall>p\<in>set ps'. wellOrdered p) \<and> length ps' + 0 = length ([]::Period list) + i'
      \<and> i' \<le> maxIterations"
    by (rule periodsLoop_invariant [OF run]) simp_all
  then show ?thesis by (auto simp: generateMonthPeriods_def run)
qed

section \<open>Floating-point arithmetic\<close>

lemma bitLength_0: "bitLength 0 = 0"
  by (simp add: bitLength.simps)

lemma bitLength_1: "bitLength 1 = 1"
  by (simp add: bitLength.simps [of 1] bitLength_0)

lemma bitLength_Bit0: "bitLength (numeral (Num.Bit0 n)) = bitLength (numeral n) + 1"
  by (subst bitLength.simps) simp

lemma bitLength_Bit1: "bitLength (numeral (Num.Bit1 n)) = bitLength (numeral n) + 1"
  by (subst bitLength.simps) simp

lemma bitLength_One: "bitLength Numeral1 = 1"
  by (simp add: bitLength_1)

lemmas bitLength_numeral = bitLength_0 bitLength_1 bitLength_Bit0 bitLength_Bit1 bitLength_One

lemmas number_eval = fadd_def fsub_def fmul_def fdiv_def roundNum_def expo_def bitLength_numeral
  roundHalfEven_def zero_def infinity_def Let_def

lemma bitLength_nonneg: "0 \<le> bitLength n"
  by (induction n rule: bitLength.induct) (subst bitLength.simps, simp)

text \<open>An integer \<open>n \<ge> 1\<close> of bit length \<open>k\<close> lies between \<open>2 ^ (k - 1)\<close> and \<open>2 ^ k\<close>.\<close>

lemma bitLength_bounds:
  "1 \<le> n \<Longrightarrow> (2::int) ^ nat (bitLength n - 1) \<le> n \<and> n < 2 ^ nat (bitLength n)"
proof (induction n rule: bitLength.induct)
  case (1 n)
  show ?case
  proof (cases "n = 1")
    case True
    then show ?thesis by (simp add: bitLength_1)
  next
    case False
    with 1 have h: "1 \<le> n div 2" by simp
    have pos: "\<not> n \<le> 0" using 1 by simp
    from 1(1) [OF pos h] have lo: "(2::int) ^ nat (bitLength (n div 2) - 1) \<le> n div 2"
      and hi: "n div 2 < 2 ^ nat (bitLength (n div 2))" by simp_all
    have b: "bitLength n = bitLength (n div 2) + 1"
      using pos by (subst bitLength.simps) simp
    have k: "1 \<le> bitLength (n div 2)"
      using h by (subst bitLength.simps) (simp add: bitLength_nonneg)
    have e1: "nat (bitLength n - 1) = Suc (nat (bitLength (n div 2) - 1))"
      using b k by simp
    have e2: "nat (bitLength n) = Suc (nat (bitLength (n div 2)))"
      using b k by simp
    have "2 * (n div 2) \<le> n" by simp
    then have l: "(2::int) ^ nat (bitLength n - 1) \<le> n"
      using lo unfolding e1 by simp
    have "n < 2 * (n div 2 + 1)" by simp
    moreover have "n div 2 + 1 \<le> 2 ^ nat (bitLength (n div 2))" using hi by simp
    ultimately have u: "n < 2 ^ nat (bitLength n)"
      unfolding e2 by simp
    show ?thesis using l u by simp
  qed
qed

lemma bitLength_upper: "0 \<le> n \<Longrightarrow> n < 2 ^ nat (bitLength n)"
proof (cases "n = 0")
  case True
  then show ?thesis by (simp add: bitLength_0)
next
  case False
  assume "0 \<le> n"
  with False have "1 \<le> n" by simp
  then show ?thesis using bitLength_bounds [of n] by simp
qed

lemma powi_nat: "0 \<le> k \<Longrightarrow> (2::real) powi k = 2 ^ nat k"
  by (simp add: power_int_def)

lemma powi_neg_nat: "0 \<le> k \<Longrightarrow> (2::real) powi (- k) = 1 / 2 ^ nat k"
  by (simp only: power_int_minus_divide powi_nat)

text \<open>\<open>expo a\<close> is the exponent of the leading bit of \<open>a\<close>.\<close>

lemma expo_bounds:
  assumes "0 < a"
  shows "2 powi (expo a) \<le> a" and "a < 2 powi (expo a + 1)"
proof -
  show "2 powi (expo a) \<le> a"
  proof (cases "1 \<le> a")
    case True
    then have n: "1 \<le> \<lfloor>a\<rfloor>" by simp
    have k: "0 \<le> bitLength \<lfloor>a\<rfloor> - 1"
      using n by (subst bitLength.simps) (simp add: bitLength_nonneg)
    have "(2::int) ^ nat (bitLength \<lfloor>a\<rfloor> - 1) \<le> \<lfloor>a\<rfloor>"
      using bitLength_bounds [OF n] by simp
    then have "real_of_int (2 ^ nat (bitLength \<lfloor>a\<rfloor> - 1)) \<le> real_of_int \<lfloor>a\<rfloor>"
      by (simp only: of_int_le_iff)
    also have "\<dots> \<le> a" by simp
    finally have "(2::real) ^ nat (bitLength \<lfloor>a\<rfloor> - 1) \<le> a" by simp
    then show ?thesis using True k by (simp add: expo_def powi_nat)
  next
    case False
    define n where "n = \<lceil>1 / a\<rceil> - 1"
    have "1 < 1 / a" using False assms by simp
    then have n0: "0 \<le> n" unfolding n_def by linarith
    have "n + 1 \<le> 2 ^ nat (bitLength n)"
      using bitLength_upper [OF n0] by simp
    then have "real_of_int (n + 1) \<le> real_of_int (2 ^ nat (bitLength n))"
      by (simp only: of_int_le_iff)
    moreover have "1 / a \<le> real_of_int (n + 1)" unfolding n_def by simp
    ultimately have "1 / a \<le> 2 ^ nat (bitLength n)" by simp
    then have "1 / 2 ^ nat (bitLength n) \<le> a"
      using assms by (simp add: field_simps)
    moreover have "expo a = - bitLength n" using False by (simp add: expo_def n_def)
    ultimately show ?thesis
      using powi_neg_nat [OF bitLength_nonneg [of n]] by simp
  qed
  show "a < 2 powi (expo a + 1)"
  proof (cases "1 \<le> a")
    case True
    then have n: "1 \<le> \<lfloor>a\<rfloor>" by simp
    have k: "0 \<le> bitLength \<lfloor>a\<rfloor>" by (rule bitLength_nonneg)
    have "\<lfloor>a\<rfloor> + 1 \<le> 2 ^ nat (bitLength \<lfloor>a\<rfloor>)"
      using bitLength_bounds [OF n] by simp
    then have "real_of_int (\<lfloor>a\<rfloor> + 1) \<le> real_of_int (2 ^ nat (bitLength \<lfloor>a\<rfloor>))"
      by (simp only: of_int_le_iff)
    then have "real_of_int \<lfloor>a\<rfloor> + 1 \<le> 2 ^ nat (bitLength \<lfloor>a\<rfloor>)" by simp
    moreover have "a < real_of_int \<lfloor>a\<rfloor> + 1" by linarith
    ultimately have "a < 2 ^ nat (bitLength \<lfloor>a\<rfloor>)" by linarith
    then show ?thesis using True k by (simp add: expo_def powi_nat)
  next
    case False
    define n where "n = \<lceil>1 / a\<rceil> - 1"
    have "1 < 1 / a" using False assms by simp
    then have n1: "1 \<le> n" unfolding n_def by linarith
    have k: "1 \<le> bitLength n"
      using n1 by (subst bitLength.simps) (simp add: bitLength_nonneg)
    have "(2::int) ^ nat (bitLength n - 1) \<le> n"
      using bitLength_bounds [OF n1] by simp
    then have "real_of_int (2 ^ nat (bitLength n - 1)) \<le> real_of_int n"
      by (simp only: of_int_le_iff)
    then have "(2::real) ^ nat (bitLength n - 1) \<le> real_of_int n" by simp
    moreover have "real_of_int n < 1 / a" unfolding n_def by linarith
    ultimately have "2 ^ nat (bitLength n - 1) < 1 / a" by linarith
    then have "a < 1 / 2 ^ nat (bitLength n - 1)"
      using assms by (simp add: field_simps)
    moreover have "expo a + 1 = - (bitLength n - 1)" using False by (simp add: expo_def n_def)
    moreover have "0 \<le> bitLength n - 1" using k by simp
    ultimately show ?thesis
      using powi_neg_nat [of "bitLength n - 1"] by simp
  qed
qed

lemma roundHalfEven_ge: "of_int k \<le> q \<Longrightarrow> k \<le> roundHalfEven q"
proof -
  assume "of_int k \<le> q"
  then have "k \<le> \<lfloor>q\<rfloor>" by (simp add: le_floor_iff)
  then show ?thesis by (simp add: roundHalfEven_def Let_def)
qed

lemma minValue_pos: "0 < minValue"
  unfolding minValue_def by (rule zero_less_power_int) simp

text \<open>The significand of the rounded value of a number of magnitude at least \<open>2 ^ -1074\<close>.\<close>

lemma significand_pos:
  assumes "minValue \<le> a"
  shows "1 \<le> roundHalfEven (a / 2 powi (max (expo a - 52) (- 1074)))"
proof -
  have a: "0 < a" using assms minValue_pos by simp
  define e where "e = max (expo a - 52) (- 1074)"
  have "2 powi e \<le> a"
  proof (cases "expo a - 52 \<le> - 1074")
    case True
    then have "e = - 1074" by (simp add: e_def)
    then show ?thesis using assms unfolding minValue_def by (simp only:)
  next
    case False
    then have "e \<le> expo a" by (simp add: e_def)
    then have "(2::real) powi e \<le> 2 powi (expo a)"
      by (rule power_int_increasing) simp
    then show ?thesis using expo_bounds(1) [OF a] by simp
  qed
  then have "1 \<le> a / 2 powi e"
    using zero_less_power_int [of "2::real" e] by (simp add: field_simps)
  then have "real_of_int 1 \<le> a / 2 powi e" by simp
  then show ?thesis unfolding e_def by (rule roundHalfEven_ge)
qed

lemma roundNum_positive:
  assumes "minValue \<le> \<bar>d\<bar>"
  shows "positive (roundNum d) \<longleftrightarrow> 0 < d"
proof -
  define e where "e = max (expo \<bar>d\<bar> - 52) (- 1074)"
  define m where "m = roundHalfEven (\<bar>d\<bar> / 2 powi e)"
  define v where "v = of_int m * (2::real) powi e"
  have m: "1 \<le> m" unfolding m_def e_def using assms by (rule significand_pos)
  have p: "0 < (2::real) powi e" by (rule zero_less_power_int) simp
  have v: "0 < v" unfolding v_def using m p by simp
  have d: "d \<noteq> 0" using assms minValue_pos by auto
  have m0: "m \<noteq> 0" using m by simp
  have "roundNum d =
     (if x = 0 then Fin 0
      else if 2 ^ 1024 \<le> v then (if d < 0 then NegInf else PosInf)
         else if m = 0 then (if d < 0 then NegZero else Fin 0)
         else Fin (if d < 0 then - v else v))" if "x = d" for x
    unfolding roundNum_def Let_def e_def m_def v_def that by (rule refl)
  then have "roundNum d =
     (if 2 ^ 1024 \<le> v then (if d < 0 then NegInf else PosInf)
      else Fin (if d < 0 then - v else v))"
    using d m0 by (simp only: if_False refl)
  then show ?thesis using v d by auto
qed

lemma onGrid_scaled:
  assumes "- 1074 \<le> e"
  shows "onGrid (Fin (of_int m * 2 powi e))" and "onGrid (Fin (- (of_int m * 2 powi e)))"
proof -
  have "(2::real) powi e / minValue = 2 powi (e - (- 1074))"
    unfolding minValue_def by (rule power_int_diff [symmetric]) simp
  also have "\<dots> = 2 ^ nat (e + 1074)" using assms by (simp add: powi_nat)
  finally have "of_int m * (2 powi e / minValue) = of_int (m * 2 ^ nat (e + 1074))"
    by simp
  then have "of_int m * 2 powi e / minValue = of_int (m * 2 ^ nat (e + 1074))"
    by (simp only: times_divide_eq_right)
  then have i: "of_int m * 2 powi e / minValue \<in> \<int>"
    by (simp only: Ints_of_int)
  then show "onGrid (Fin (of_int m * 2 powi e))" by (simp add: onGrid_def)
  have "- (of_int m * 2 powi e) / minValue = - (of_int m * 2 powi e / minValue)" by simp
  then have "- (of_int m * 2 powi e) / minValue \<in> \<int>" using i by (simp only: Ints_minus)
  then show "onGrid (Fin (- (of_int m * 2 powi e)))" by (simp add: onGrid_def)
qed

lemma onGrid_if:
  "onGrid a \<Longrightarrow> onGrid b \<Longrightarrow> onGrid (if c then a else b)"
  "onGrid (Fin u) \<Longrightarrow> onGrid (Fin v) \<Longrightarrow> onGrid (Fin (if c then u else v))"
  by simp_all

lemma onGrid_special: "onGrid (Fin 0)" "onGrid NegZero" "onGrid PosInf" "onGrid NegInf" "onGrid NaN"
  by (simp_all add: onGrid_def)

lemma roundNum_onGrid: "onGrid (roundNum x)"
proof -
  define e where "e = max (expo \<bar>x\<bar> - 52) (- 1074)"
  have e: "- 1074 \<le> e" by (simp add: e_def)
  show ?thesis
    unfolding roundNum_def Let_def e_def [symmetric]
    by (intro onGrid_if onGrid_special onGrid_scaled [OF e])
qed

lemma fdiv_onGrid: "onGrid (fdiv x y)"
  using roundNum_onGrid onGrid_special by (simp add: fdiv_def zero_def infinity_def)

lemma round2_onGrid: "onGrid (round2 x)"
  unfolding round2_def by (rule fdiv_onGrid)

text \<open>The sign of a difference of doubles is the sign of the exact difference.\<close>

lemma grid_gap:
  assumes "x / c \<in> \<int>" and "y / c \<in> \<int>" and "x \<noteq> (y::real)" and "0 < c"
  shows "c \<le> \<bar>y - x\<bar>"
proof -
  have "x / c \<noteq> y / c" using assms(3,4) by simp
  then have "\<not> \<bar>x / c - y / c\<bar> < 1"
    using Ints_eq_abs_less1 [OF assms(1,2)] by simp
  then have "1 \<le> \<bar>(y - x) / c\<bar>"
    by (simp add: diff_divide_distrib abs_minus_commute)
  then have "1 \<le> \<bar>y - x\<bar> / c" using assms(4) by (simp add: abs_divide)
  then show ?thesis using assms(4) by (simp add: field_simps)
qed

lemma onGrid_val: "onGrid x \<Longrightarrow> val x / minValue \<in> \<int>"
  by (cases x) (simp_all add: onGrid_def)

lemma val_fneg: "val (fneg x) = - val x"
  by (cases x) simp_all

lemma fsub_infinite:
  assumes "isInfinite x \<or> isInfinite y" and "x \<noteq> NaN" and "y \<noteq> NaN"
  shows "positive (fsub y x) \<longleftrightarrow> lessThan x y"
  using assms by (cases x; cases y) (simp_all add: fsub_def fadd_def lessThan_def zero_def)

lemma fsub_finite:
  assumes "\<not> isInfinite x" and "\<not> isInfinite y" and "x \<noteq> NaN" and "y \<noteq> NaN"
  shows "fsub y x = (if val y - val x = 0 then zero (signBit y \<and> signBit (fneg x))
      else roundNum (val y - val x))"
proof -
  have i: "\<not> isInfinite (fneg x)" "fneg x \<noteq> NaN" using assms(1,3) by (cases x; simp)+
  show ?thesis using assms(2,4) i by (simp add: fsub_def fadd_def val_fneg)
qed

lemma lessThan_finite:
  assumes "\<not> isInfinite x" and "\<not> isInfinite y" and "x \<noteq> NaN" and "y \<noteq> NaN"
  shows "lessThan x y \<longleftrightarrow> val x < val y"
  using assms by (cases x; cases y) (simp_all add: lessThan_def)

lemma fsub_positive:
  assumes "onGrid x" and "onGrid y" and "x \<noteq> NaN" and "y \<noteq> NaN"
  shows "positive (fsub y x) \<longleftrightarrow> lessThan x y"
proof (cases "isInfinite x \<or> isInfinite y")
  case True
  then show ?thesis using assms(3,4) by (rule fsub_infinite)
next
  case False
  then have f: "\<not> isInfinite x" "\<not> isInfinite y" by simp_all
  note s = fsub_finite [OF f assms(3,4)]
  note l = lessThan_finite [OF f assms(3,4)]
  show ?thesis
  proof (cases "val x = val y")
    case True
    then show ?thesis by (simp add: s l zero_def)
  next
    case False
    have "minValue \<le> \<bar>val y - val x\<bar>"
      using onGrid_val [OF assms(1)] onGrid_val [OF assms(2)] False minValue_pos
      by (rule grid_gap)
    then have "positive (roundNum (val y - val x)) \<longleftrightarrow> 0 < val y - val x"
      by (rule roundNum_positive)
    then show ?thesis using False by (simp add: s l)
  qed
qed

lemma greaterOrEqual_trans:
  "greaterOrEqual x y \<Longrightarrow> greaterOrEqual y z \<Longrightarrow> greaterOrEqual x z"
  by (cases x; cases y; cases z) (simp_all add: greaterOrEqual_def lessThan_def)

lemma greaterOrEqual_iff: "x \<noteq> NaN \<Longrightarrow> y \<noteq> NaN \<Longrightarrow> greaterOrEqual x y \<longleftrightarrow> \<not> lessThan x y"
  by (simp add: greaterOrEqual_def)

lemma lessThan_asym: "lessThan x y \<Longrightarrow> greaterOrEqual y x"
  by (cases x; cases y) (simp_all add: greaterOrEqual_def lessThan_def)

section \<open>Item aggregation\<close>

lemma insertBy_mset: "mset (insertBy cmp x xs) = add_mset x (mset xs)"
  by (induction xs) simp_all

lemma Array_sort_mset: "mset (Array_sort cmp xs) = mset xs"
  by (induction xs) (simp_all add: Array_sort_def insertBy_mset)

lemma Array_sort_set: "set (Array_sort cmp xs) = set xs"
  using Array_sort_mset [of cmp xs] by (metis set_mset_mset)

lemma Array_sort_Cons: "Array_sort cmp (x # xs) = insertBy cmp x (Array_sort cmp xs)"
  by (simp add: Array_sort_def)

text \<open>
  The insertion sort orders a list by the relation \<open>le\<close> when \<open>le\<close> is transitive on it and
  the comparison function is positive exactly on the pairs that \<open>le\<close> does not relate,
  which are related the other way round.
\<close>

lemma insertBy_sorted:
  assumes "sorted_wrt le xs"
    and "\<And>y. y \<in> set xs \<Longrightarrow> positive (cmp x y) \<longleftrightarrow> \<not> le x y"
    and "\<And>y. y \<in> set xs \<Longrightarrow> \<not> le x y \<Longrightarrow> le y x"
    and "\<And>y z. y \<in> set xs \<Longrightarrow> z \<in> set xs \<Longrightarrow> le x y \<Longrightarrow> le y z \<Longrightarrow> le x z"
  shows "sorted_wrt le (insertBy cmp x xs)"
  using assms
proof (induction xs)
  case Nil
  then show ?case by simp
next
  case (Cons y ys)
  show ?case
  proof (cases "positive (cmp x y)")
    case True
    then have yx: "le y x" using Cons.prems(2,3) by simp
    have s: "sorted_wrt le (insertBy cmp x ys)"
      using Cons.prems by (intro Cons.IH) auto
    have "\<forall>z \<in> set (insertBy cmp x ys). le y z"
    proof
      fix z
      assume "z \<in> set (insertBy cmp x ys)"
      then have "z \<in># mset (insertBy cmp x ys)" by simp
      then have "z = x \<or> z \<in> set ys" by (simp add: insertBy_mset)
      then show "le y z" using yx Cons.prems(1) by auto
    qed
    then show ?thesis using True s by simp
  next
    case False
    then have xy: "le x y" using Cons.prems(2) by simp
    have "\<forall>z \<in> set ys. le x z"
    proof
      fix z
      assume z: "z \<in> set ys"
      then have "le y z" using Cons.prems(1) by simp
      then show "le x z" using xy z Cons.prems(4) [of y z] by simp
    qed
    then show ?thesis using False xy Cons.prems(1) by simp
  qed
qed

lemma Array_sort_sorted:
  assumes "\<And>x y. x \<in> set xs \<Longrightarrow> y \<in> set xs \<Longrightarrow> positive (cmp x y) \<longleftrightarrow> \<not> le x y"
    and "\<And>x y. x \<in> set xs \<Longrightarrow> y \<in> set xs \<Longrightarrow> \<not> le x y \<Longrightarrow> le y x"
    and "\<And>x y z. le x y \<Longrightarrow> le y z \<Longrightarrow> le x z"
  shows "sorted_wrt le (Array_sort cmp xs)"
  using assms(1,2)
proof (induction xs)
  case Nil
  show ?case by (simp add: Array_sort_def)
next
  case (Cons x xs)
  have p: "positive (cmp a b) \<longleftrightarrow> \<not> le a b" if "a \<in> set xs" "b \<in> set xs" for a b
    by (rule Cons.prems(1)) (simp_all add: that)
  have q: "le b a" if "a \<in> set xs" "b \<in> set xs" "\<not> le a b" for a b
    by (rule Cons.prems(2) [of a b]) (simp_all add: that)
  have s: "sorted_wrt le (Array_sort cmp xs)"
    by (rule Cons.IH [OF p q])
  have "sorted_wrt le (insertBy cmp x (Array_sort cmp xs))"
  proof (rule insertBy_sorted [OF s])
    fix y
    assume "y \<in> set (Array_sort cmp xs)"
    then have y: "y \<in> set xs" by (simp only: Array_sort_set)
    show "positive (cmp x y) \<longleftrightarrow> \<not> le x y"
      by (rule Cons.prems(1)) (simp_all add: y)
    assume n: "\<not> le x y"
    show "le y x"
      by (rule Cons.prems(2) [of x y]) (simp_all add: y n)
  next
    fix y z
    assume "le x y" and "le y z"
    then show "le x z" by (rule assms(3))
  qed
  then show ?case by (simp only: Array_sort_Cons)
qed

lemma addToItemMap_keys:
  "map fst (addToItemMap m k a) = (if k \<in> set (map fst m) then map fst m else map fst m @ [k])"
  by (induction m k a rule: addToItemMap.induct) auto

lemma addToItemMap_map_of:
  "map_of (addToItemMap m k a) =
     (map_of m)(k \<mapsto> (case map_of m k of None \<Rightarrow> (1, a, a)
        | Some (q, tot, u) \<Rightarrow> (q + 1, fadd tot a, fdiv (fadd tot a) (Fin (real (q + 1))))))"
  by (induction m k a rule: addToItemMap.induct) (auto simp: fun_eq_iff)

lemma itemMapOf_snoc:
  "itemMapOf L (ts @ [t]) = addToItemMap (itemMapOf L ts) (itemKey L t) (amount t)"
  by (simp add: itemMapOf_def)

lemma itemMapOf_keys:
  "distinct (map fst (itemMapOf L ts)) \<and> set (map fst (itemMapOf L ts)) = itemKey L ` set ts"
proof (induction ts rule: rev_induct)
  case Nil
  then show ?case by (simp add: itemMapOf_def)
next
  case (snoc t ts)
  then show ?case by (auto simp: itemMapOf_snoc addToItemMap_keys)
qed

lemma occurrences_snoc:
  "occurrences L k (ts @ [t]) =
     (if itemKey L t = k then occurrences L k ts @ [t] else occurrences L k ts)"
  by (simp add: occurrences_def)

lemma occurrences_empty: "k \<notin> itemKey L ` set ts \<Longrightarrow> occurrences L k ts = []"
  by (auto simp: occurrences_def filter_empty_conv)

lemma occurrences_nonempty: "k \<in> itemKey L ` set ts \<Longrightarrow> occurrences L k ts \<noteq> []"
  by (auto simp: occurrences_def filter_empty_conv)

lemma total_snoc: "as \<noteq> [] \<Longrightarrow> total (as @ [a]) = fadd (total as) a"
  by (cases as) simp_all

lemma average_snoc:
  "as \<noteq> [] \<Longrightarrow> average (as @ [a]) = fdiv (fadd (total as) a) (Fin (real (length as + 1)))"
  by (cases as) (simp_all add: average_def)

lemma itemMapOf_lookup:
  "map_of (itemMapOf L ts) k =
     (if k \<in> itemKey L ` set ts
      then Some (length (occurrences L k ts), total (map amount (occurrences L k ts)),
        average (map amount (occurrences L k ts)))
      else None)"
proof (induction ts rule: rev_induct)
  case Nil
  then show ?case by (simp add: itemMapOf_def)
next
  case (snoc t ts)
  show ?case
  proof (cases "itemKey L t = k")
    case True
    show ?thesis
    proof (cases "k \<in> itemKey L ` set ts")
      case present: True
      then have "map amount (occurrences L k ts) \<noteq> []"
        using occurrences_nonempty [of k L ts] by simp
      then show ?thesis
        using True snoc present
        by (simp add: itemMapOf_snoc addToItemMap_map_of occurrences_snoc total_snoc average_snoc)
    next
      case False
      then have "occurrences L k ts = []" by (rule occurrences_empty)
      then show ?thesis
        using True False snoc
        by (simp add: itemMapOf_snoc addToItemMap_map_of occurrences_snoc average_def)
    qed
  next
    case False
    then show ?thesis
      using snoc by (auto simp: itemMapOf_snoc addToItemMap_map_of occurrences_snoc)
  qed
qed

lemma combineItems_eq:
  "combineItems L ts =
     Array_sort (\<lambda>a b. fsub (totalPrice b) (totalPrice a)) (map toBillItem (itemMapOf L ts))"
  by (simp add: combineItems_def itemMapOf_def toBillItem_def)

lemma billItem_toBillItem: "map billItem (map toBillItem m) = map fst m"
  by (induction m) (auto simp: toBillItem_def)

lemma combineItems_keys_mset:
  "mset (map billItem (combineItems L ts)) = mset (map fst (itemMapOf L ts))"
proof -
  have "mset (combineItems L ts) = mset (map toBillItem (itemMapOf L ts))"
    by (simp add: combineItems_eq Array_sort_mset)
  then have "image_mset billItem (mset (combineItems L ts))
      = image_mset billItem (mset (map toBillItem (itemMapOf L ts)))"
    by (rule arg_cong)
  then have "mset (map billItem (combineItems L ts))
      = mset (map billItem (map toBillItem (itemMapOf L ts)))"
    by (simp only: mset_map)
  then show ?thesis by (simp only: billItem_toBillItem)
qed

lemma combineItems_entry:
  assumes "b \<in> set (combineItems L ts)"
  shows "quantity b = length (occurrences L (billItem b) ts)
    \<and> totalPrice b = round2 (total (map amount (occurrences L (billItem b) ts)))
    \<and> unitPrice b = round2 (average (map amount (occurrences L (billItem b) ts)))"
proof -
  from assms obtain k q tot u where e: "(k, q, tot, u) \<in> set (itemMapOf L ts)"
    and b: "b = toBillItem (k, q, tot, u)"
    by (auto simp: combineItems_eq Array_sort_set)
  have "map_of (itemMapOf L ts) k = Some (q, tot, u)"
    using e itemMapOf_keys [of L ts] by (simp add: map_of_eq_Some_iff)
  then have "q = length (occurrences L k ts)" "tot = total (map amount (occurrences L k ts))"
    "u = average (map amount (occurrences L k ts))"
    by (auto simp: itemMapOf_lookup split: if_splits)
  then show ?thesis by (simp add: b toBillItem_def)
qed

lemma combineItems_onGrid: "b \<in> set (combineItems L ts) \<Longrightarrow> onGrid (totalPrice b)"
  using combineItems_entry [of b L ts] round2_onGrid by simp

lemma combineItems_sorted:
  assumes "\<And>b. b \<in> set (combineItems L ts) \<Longrightarrow> totalPrice b \<noteq> NaN"
  shows "sorted_wrt (\<lambda>a b. greaterOrEqual (totalPrice a) (totalPrice b)) (combineItems L ts)"
proof -
  let ?xs = "map toBillItem (itemMapOf L ts)"
  have m: "set ?xs = set (combineItems L ts)"
    by (simp only: combineItems_eq Array_sort_set)
  have g: "\<And>b. b \<in> set ?xs \<Longrightarrow> onGrid (totalPrice b)"
    unfolding m by (rule combineItems_onGrid)
  have n: "\<And>b. b \<in> set ?xs \<Longrightarrow> totalPrice b \<noteq> NaN"
    unfolding m by (rule assms)
  have "sorted_wrt (\<lambda>a b. greaterOrEqual (totalPrice a) (totalPrice b))
     (Array_sort (\<lambda>a b. fsub (totalPrice b) (totalPrice a)) ?xs)"
  proof (rule Array_sort_sorted)
    fix x y
    assume x: "x \<in> set ?xs" and y: "y \<in> set ?xs"
    show "positive (fsub (totalPrice y) (totalPrice x))
        \<longleftrightarrow> \<not> greaterOrEqual (totalPrice x) (totalPrice y)"
      using fsub_positive [OF g [OF x] g [OF y] n [OF x] n [OF y]] n [OF x] n [OF y]
      by (simp add: greaterOrEqual_def)
    assume "\<not> greaterOrEqual (totalPrice x) (totalPrice y)"
    then have "lessThan (totalPrice x) (totalPrice y)"
      using n [OF x] n [OF y] by (simp add: greaterOrEqual_def)
    then show "greaterOrEqual (totalPrice y) (totalPrice x)" by (rule lessThan_asym)
  next
    fix x y z :: BillItem
    assume "greaterOrEqual (totalPrice x) (totalPrice y)"
      and "greaterOrEqual (totalPrice y) (totalPrice z)"
    then show "greaterOrEqual (totalPrice x) (totalPrice z)" by (rule greaterOrEqual_trans)
  qed
  then show ?thesis by (simp only: combineItems_eq)
qed

section \<open>Claims about the billing period segmenter\<close>

text \<open>
  Claim C6.  The spec and the repository's test expect \<^verbatim>\<open>generateMonthPeriods\<close> on
  2024-01-01 .. 2024-03-31 to return the four periods [2023-12-15, 2024-01-14],
  [2024-01-15, 2024-02-14], [2024-02-15, 2024-03-14], [2024-03-15, 2024-03-31].  The code
  returns four periods with these start dates, but its first period ends on 2024-03-31:
  for the period starting on 15 December the "month overflow" branch adds a year to the
  already correct 14 January 2024, and the resulting 14 January 2025 is clipped to the
  overall end.
\<close>

theorem C6_jan_to_mar_2024_first_period_runs_to_range_end:
  "periods (generateMonthPeriods (ymd 2024 0 1) (ymd 2024 2 31)) =
     [\<lparr>startDate = ymd 2023 11 15, endDate = ymd 2024 2 31\<rparr>,
      \<lparr>startDate = ymd 2024 0 15, endDate = ymd 2024 1 14\<rparr>,
      \<lparr>startDate = ymd 2024 1 15, endDate = ymd 2024 2 14\<rparr>,
      \<lparr>startDate = ymd 2024 2 15, endDate = ymd 2024 2 31\<rparr>]"
  by code_simp


text \<open>
  Claim C1, as amended.  The segmenter does not confine its periods to [start, end]: the
  first period starts at 00:00 on the 15th on or before \<open>start\<close>.  For valid dates
  \<open>start \<le> end\<close> (start year at least 101, end year at most 269999) that need fewer than
  1000 cycles, the periods start on consecutive 15ths; every period that does not start in
  December ends at 00:00 on the 14th of the following month, or at \<open>end\<close> if that is earlier,
  so that the next period starts exactly one day later; no period ends after \<open>end\<close>; and
  every calendar day from the first 15th to \<open>end\<close> lies between the start day and the end
  day of some period.
\<close>

theorem C1_periods_run_from_the_15th_on_or_before_start_to_end:
  assumes "ts \<le> te" and "101 \<le> YearFromTime ts" and "YearFromTime te \<le> 269999"
    and "console_errors (generateMonthPeriods (Some ts) (Some te)) = []"
  shows "let ps = periods (generateMonthPeriods (Some ts) (Some te)); I = startIndex ts in
      ps \<noteq> [] \<and> monthDay I 15 \<le> ts \<and> te < monthDay (I + int (length ps)) 15
    \<and> (\<forall>k<length ps. startDate (ps ! k) = Some (monthDay (I + int k) 15))
    \<and> (\<forall>k<length ps. (I + int k) mod 12 \<noteq> 11 \<longrightarrow>
          endDate (ps ! k) = Some (min (monthDay (I + int k + 1) 14) te))
    \<and> (\<forall>k. Suc k < length ps \<and> (I + int k) mod 12 \<noteq> 11 \<longrightarrow>
          (\<exists>e. endDate (ps ! k) = Some e \<and> startDate (ps ! Suc k) = Some (e + msPerDay)))
    \<and> (\<forall>k<length ps. num_le (startDate (ps ! k)) (endDate (ps ! k))
          \<and> num_le (endDate (ps ! k)) (Some te))
    \<and> (\<forall>t. monthDay I 15 \<le> t \<and> t \<le> te \<longrightarrow>
          (\<exists>k<length ps. \<exists>s e. startDate (ps ! k) = Some s \<and> endDate (ps ! k) = Some e
             \<and> Day s \<le> Day t \<and> Day t \<le> Day e))"
proof -
  define I where "I = startIndex ts"
  define n where "n = cycles I te maxIterations"
  define ps where "ps = periods (generateMonthPeriods (Some ts) (Some te))"
  have "YearFromTime ts \<le> YearFromTime te" using assms(1) by (rule YearFromTime_mono)
  with assms(3) have y: "YearFromTime ts \<le> 270000" by simp
  note closed = generateMonthPeriods_closed [OF assms(2) y assms(3)]
  have ps: "ps = map (\<lambda>k. periodAt te (I + int k)) [0..<n]"
    by (simp add: ps_def closed I_def n_def)
  have len: "length ps = n" by (simp add: ps)
  have nth: "ps ! k = periodAt te (I + int k)" if "k < n" for k
    using that by (simp add: ps)
  have n: "n < maxIterations"
    using assms(4) by (simp add: closed I_def n_def split: if_splits)
  have first: "monthDay I 15 \<le> ts" unfolding I_def by (rule startIndex_bounds)
  then have "0 < n" unfolding n_def using assms(1)
    by (intro cycles_pos) (simp_all add: maxIterations_def)
  then have c1: "ps \<noteq> []" using len by auto
  have c3: "te < monthDay (I + int (length ps)) 15"
    unfolding len n_def using n unfolding n_def by (rule cycles_exit)
  have guard: "monthDay (I + int k) 15 \<le> te" if "k < n" for k
    using that unfolding n_def by (rule cycles_guard)
  have c4: "\<forall>k<length ps. startDate (ps ! k) = Some (monthDay (I + int k) 15)"
    by (simp add: len nth periodAt_def)
  have c5: "\<forall>k<length ps. (I + int k) mod 12 \<noteq> 11 \<longrightarrow>
      endDate (ps ! k) = Some (min (monthDay (I + int k + 1) 14) te)"
    by (simp add: len nth periodAt_def cycleEnd_def)
  have c6: "\<forall>k. Suc k < length ps \<and> (I + int k) mod 12 \<noteq> 11 \<longrightarrow>
      (\<exists>e. endDate (ps ! k) = Some e \<and> startDate (ps ! Suc k) = Some (e + msPerDay))"
  proof (intro allI impI)
    fix k assume k: "Suc k < length ps \<and> (I + int k) mod 12 \<noteq> 11"
    then have kn: "k < n" "Suc k < n" using len by simp_all
    have "monthDay (I + int k + 1) 14 \<le> monthDay (I + int k + 1) 15"
      using monthDay_15_is_day_after_14 [of "I + int k + 1"] msPerDay_pos by simp
    also have "\<dots> \<le> te" using guard [OF kn(2)] by (simp add: algebra_simps)
    finally have "min (monthDay (I + int k + 1) 14) te = monthDay (I + int k + 1) 14" by simp
    then show "\<exists>e. endDate (ps ! k) = Some e \<and> startDate (ps ! Suc k) = Some (e + msPerDay)"
      using k kn monthDay_15_is_day_after_14 [of "I + int k + 1"]
      by (simp add: nth periodAt_def cycleEnd_def algebra_simps)
  qed
  have c7: "\<forall>k<length ps. num_le (startDate (ps ! k)) (endDate (ps ! k))
      \<and> num_le (endDate (ps ! k)) (Some te)"
  proof (intro allI impI)
    fix k assume "k < length ps"
    then have kn: "k < n" using len by simp
    have "monthDay (I + int k) 15 \<le> cycleEnd (I + int k)"
      using monthDay_15_before_next_14 [of "I + int k"] cycleEnd_ge [of "I + int k"] by linarith
    then show "num_le (startDate (ps ! k)) (endDate (ps ! k))
        \<and> num_le (endDate (ps ! k)) (Some te)"
      using guard [OF kn] by (simp add: nth [OF kn] periodAt_def num_le_def)
  qed
  have c8: "\<forall>t. monthDay I 15 \<le> t \<and> t \<le> te \<longrightarrow>
      (\<exists>k<length ps. \<exists>s e. startDate (ps ! k) = Some s \<and> endDate (ps ! k) = Some e
         \<and> Day s \<le> Day t \<and> Day t \<le> Day e)"
  proof (intro allI impI)
    fix t assume t: "monthDay I 15 \<le> t \<and> t \<le> te"
    then obtain k where "k < n" "Day (monthDay (I + int k) 15) \<le> Day t"
      "Day t \<le> Day (min (cycleEnd (I + int k)) te)"
      using day_covered [of I t te] n unfolding n_def by blast
    then show "\<exists>k<length ps. \<exists>s e. startDate (ps ! k) = Some s \<and> endDate (ps ! k) = Some e
         \<and> Day s \<le> Day t \<and> Day t \<le> Day e"
      unfolding len by (intro exI [of _ k]) (simp add: nth periodAt_def)
  qed
  show ?thesis
    unfolding Let_def ps_def [symmetric] I_def [symmetric]
    using c1 first c3 c4 c5 c6 c7 c8 by blast
qed

text \<open>
  Witness for C1: the range 2024-02-01 .. 2024-03-31 satisfies the hypotheses, and its
  periods start on the 15ths of January, February and March 2024.
\<close>

theorem C1_witness_feb_to_mar_2024:
  "ymd 2024 1 1 = Some 1706745600000 \<and> ymd 2024 2 31 = Some 1711843200000
   \<and> (1706745600000::int) \<le> 1711843200000
   \<and> 101 \<le> YearFromTime 1706745600000 \<and> YearFromTime 1711843200000 \<le> 269999
   \<and> console_errors (generateMonthPeriods (Some 1706745600000) (Some 1711843200000)) = []
   \<and> periods (generateMonthPeriods (Some 1706745600000) (Some 1711843200000)) \<noteq> []
   \<and> monthDay (startIndex 1706745600000) 15 \<le> 1706745600000
   \<and> startDate (periods (generateMonthPeriods (Some 1706745600000) (Some 1711843200000)) ! 0)
       = Some (monthDay (startIndex 1706745600000) 15)
   \<and> Some (monthDay (startIndex 1706745600000) 15) = ymd 2024 0 15"
proof -
  let ?ps = "periods (generateMonthPeriods (Some 1706745600000) (Some 1711843200000))"
  have d: "ymd 2024 1 1 = Some 1706745600000" "ymd 2024 2 31 = Some 1711843200000"
    by code_simp+
  have h1: "(1706745600000::int) \<le> 1711843200000" by simp
  have h2: "101 \<le> YearFromTime 1706745600000" by code_simp
  have h3: "YearFromTime 1711843200000 \<le> 269999" by code_simp
  have h4: "console_errors (generateMonthPeriods (Some 1706745600000) (Some 1711843200000)) = []"
    by code_simp
  note c = C1_periods_run_from_the_15th_on_or_before_start_to_end [OF h1 h2 h3 h4,
      unfolded Let_def]
  from c have ne: "?ps \<noteq> []"
    and first: "monthDay (startIndex 1706745600000) 15 \<le> 1706745600000"
    and starts: "\<forall>k<length ?ps. startDate (?ps ! k)
        = Some (monthDay (startIndex 1706745600000 + int k) 15)"
    by blast+
  from ne have "0 < length ?ps" by simp
  with starts have s0: "startDate (?ps ! 0) = Some (monthDay (startIndex 1706745600000 + int 0) 15)"
    by blast
  have v: "Some (monthDay (startIndex 1706745600000) 15) = ymd 2024 0 15" by code_simp
  show ?thesis using d h1 h2 h3 h4 ne first s0 v by simp
qed

text \<open>
  Counterexample to C1 as stated: for 2024-02-01 .. 2024-03-31 the first period starts on
  2024-01-15, before \<open>start\<close>, so the union of the periods is not confined to
  [start, end].
\<close>

theorem C1_counterexample_first_period_starts_before_start:
  "periods (generateMonthPeriods (ymd 2024 1 1) (ymd 2024 2 31)) =
     [\<lparr>startDate = ymd 2024 0 15, endDate = ymd 2024 1 14\<rparr>,
      \<lparr>startDate = ymd 2024 1 15, endDate = ymd 2024 2 14\<rparr>,
      \<lparr>startDate = ymd 2024 2 15, endDate = ymd 2024 2 31\<rparr>]
   \<and> num_lt (ymd 2024 0 15) (ymd 2024 1 1)"
  by code_simp

text \<open>
  Claim C8, as amended.  \<^verbatim>\<open>generateMonthPeriods\<close> has no \<^verbatim>\<open>throw\<close>: when the loop reaches its
  cap of 1000 iterations the function writes an error to the console and returns the 1000
  periods pushed so far.  The console error is written exactly when 1000 periods are
  returned.
\<close>

theorem C8_cap_is_logged_and_periods_are_returned:
  "(length (periods (generateMonthPeriods s e)) = 1000
      \<and> console_errors (generateMonthPeriods s e) = [MaxIterationsReached])
   \<or> (length (periods (generateMonthPeriods s e)) < 1000
      \<and> console_errors (generateMonthPeriods s e) = [])"
  using generateMonthPeriods_invariant [of s e]
  by (cases "length (periods (generateMonthPeriods s e)) = maxIterations")
    (simp_all add: maxIterations_def)

text \<open>
  Counterexample to C8 as stated: for 2000-01-15 .. 2100-01-01 the function returns 1000
  periods together with the console error; the last period ends on 2083-05-14, long before
  the requested end, and nothing is raised.
\<close>

theorem C8_counterexample_a_century_is_cut_after_1000_periods:
  "length (periods (generateMonthPeriods (ymd 2000 0 15) (ymd 2100 0 1))) = 1000
   \<and> console_errors (generateMonthPeriods (ymd 2000 0 15) (ymd 2100 0 1)) = [MaxIterationsReached]
   \<and> endDate (last (periods (generateMonthPeriods (ymd 2000 0 15) (ymd 2100 0 1)))) = ymd 2083 4 14
   \<and> num_lt (ymd 2083 4 14) (ymd 2100 0 1)"
proof -
  have s: "ymd 2000 0 15 = Some 947894400000" and e: "ymd 2100 0 1 = Some 4102444800000"
    by code_simp+
  have y: "101 \<le> YearFromTime 947894400000" "YearFromTime 947894400000 \<le> 270000"
    "YearFromTime 4102444800000 \<le> 269999"
    by code_simp+
  have I: "startIndex 947894400000 = 24000" by code_simp
  have top: "monthDay 24999 15 \<le> 4102444800000" by code_simp
  have "cycles 24000 4102444800000 1000 = 1000"
  proof (rule cycles_full)
    fix k :: nat assume "k < 1000"
    then have "monthDay (24000 + int k) 15 \<le> monthDay 24999 15"
      by (intro monthDay_mono) simp
    with top show "monthDay (24000 + int k) 15 \<le> 4102444800000" by linarith
  qed
  then have r: "generateMonthPeriods (Some 947894400000) (Some 4102444800000) =
      \<lparr>periods = map (\<lambda>k. periodAt 4102444800000 (24000 + int k)) [0..<1000],
       console_errors = [MaxIterationsReached]\<rparr>"
    by (simp add: generateMonthPeriods_closed [OF y] I maxIterations_def)
  have l: "last (map (\<lambda>k. periodAt 4102444800000 (24000 + int k)) [0..<1000])
      = periodAt 4102444800000 24999"
    by (simp add: last_map)
  have p: "endDate (periodAt 4102444800000 24999) = ymd 2083 4 14" by code_simp
  have c: "num_lt (ymd 2083 4 14) (ymd 2100 0 1)" by code_simp
  have "length (periods (generateMonthPeriods (ymd 2000 0 15) (ymd 2100 0 1))) = 1000"
    and "console_errors (generateMonthPeriods (ymd 2000 0 15) (ymd 2100 0 1)) = [MaxIterationsReached]"
    and "endDate (last (periods (generateMonthPeriods (ymd 2000 0 15) (ymd 2100 0 1)))) = ymd 2083 4 14"
    unfolding s e r using l p by (simp_all del: upt_Suc)
  with c show ?thesis by blast
qed

text \<open>
  Claim C10, as amended.  For every pair of Date inputs (valid or not, in either order)
  \<^verbatim>\<open>generateMonthPeriods\<close> terminates (\<open>periodsLoop\<close> is a total function whose measure is
  the number of iterations left) and returns at most 1000 periods; every returned period
  has a valid start date, and its start is not after its end unless the end is an Invalid
  Date.
\<close>

theorem C10_at_most_1000_well_ordered_periods:
  "length (periods (generateMonthPeriods s e)) \<le> 1000
   \<and> (\<forall>p \<in> set (periods (generateMonthPeriods s e)).
        startDate p \<noteq> None
        \<and> (endDate p \<noteq> None \<longrightarrow> num_le (startDate p) (endDate p)))"
  using generateMonthPeriods_invariant [of s e]
  by (simp add: maxIterations_def wellOrdered_def)

text \<open>Witness for C10: the range 2024-01-20 .. 2024-02-10 of the repository's second test.\<close>

theorem C10_witness_jan_20_to_feb_10:
  "periods (generateMonthPeriods (ymd 2024 0 20) (ymd 2024 1 10))
     = [\<lparr>startDate = ymd 2024 0 15, endDate = ymd 2024 1 10\<rparr>]
   \<and> ymd 2024 0 15 \<noteq> None \<and> ymd 2024 1 10 \<noteq> None
   \<and> num_le (ymd 2024 0 15) (ymd 2024 1 10)"
proof -
  have ps: "periods (generateMonthPeriods (ymd 2024 0 20) (ymd 2024 1 10))
      = [\<lparr>startDate = ymd 2024 0 15, endDate = ymd 2024 1 10\<rparr>]"
    by code_simp
  have v: "ymd 2024 1 10 \<noteq> None" by code_simp
  show ?thesis
    using C10_at_most_1000_well_ordered_periods [of "ymd 2024 0 20" "ymd 2024 1 10"] v
    unfolding ps by simp
qed

text \<open>
  Counterexample to C10 as stated: both 275760-08-20 and 275760-09-13 (the largest time
  value) are valid Dates, but the 14th of September 275760 is beyond the largest time
  value, so the one period returned has an Invalid Date as its end, and \<^verbatim>\<open>startDate <= endDate\<close>
  is false for it.
\<close>

theorem C10_counterexample_invalid_end_near_the_largest_date:
  "ymd 275760 7 20 = Some 8639997926400000 \<and> ymd 275760 8 13 = Some 8640000000000000
   \<and> periods (generateMonthPeriods (ymd 275760 7 20) (ymd 275760 8 13))
     = [\<lparr>startDate = ymd 275760 7 15, endDate = None\<rparr>]
   \<and> ymd 275760 7 15 = Some 8639997494400000
   \<and> \<not> num_le (ymd 275760 7 15) None"
  by code_simp

section \<open>Claims about item aggregation\<close>

text \<open>
  Claim C5, as amended.  For every transaction list, \<^verbatim>\<open>combineItems\<close> returns one bill item per
  lowercased and trimmed item name; its quantity is the number of transactions with that
  name; its totalPrice is the sum of their amounts, added in list order in floating-point
  arithmetic, rounded to 2 decimal places by \<^verbatim>\<open>Math.round(x * 100) / 100\<close>; its unitPrice is
  that sum divided by the quantity (the sum itself for a single transaction), rounded in
  the same way; and when no totalPrice is NaN the result is sorted by descending
  totalPrice.
\<close>

theorem C5_combineItems_groups_counts_sums_rounds_and_sorts:
  "distinct (map billItem (combineItems L ts))
   \<and> set (map billItem (combineItems L ts)) = itemKey L ` set ts
   \<and> (\<forall>b \<in> set (combineItems L ts).
        quantity b = length (occurrences L (billItem b) ts)
        \<and> totalPrice b = round2 (total (map amount (occurrences L (billItem b) ts)))
        \<and> unitPrice b = round2 (average (map amount (occurrences L (billItem b) ts))))
   \<and> ((\<forall>b \<in> set (combineItems L ts). totalPrice b \<noteq> NaN) \<longrightarrow>
        sorted_wrt (\<lambda>a b. greaterOrEqual (totalPrice a) (totalPrice b)) (combineItems L ts))"
proof -
  have d: "distinct (map billItem (combineItems L ts))"
    using combineItems_keys_mset [of L ts] itemMapOf_keys [of L ts]
    by (metis mset_eq_imp_distinct_iff)
  have s: "set (map billItem (combineItems L ts)) = itemKey L ` set ts"
    using combineItems_keys_mset [of L ts] itemMapOf_keys [of L ts]
    by (metis mset_eq_setD)
  have o: "(\<forall>b \<in> set (combineItems L ts). totalPrice b \<noteq> NaN) \<longrightarrow>
        sorted_wrt (\<lambda>a b. greaterOrEqual (totalPrice a) (totalPrice b)) (combineItems L ts)"
    using combineItems_sorted [of L ts] by blast
  have e: "\<forall>b \<in> set (combineItems L ts).
        quantity b = length (occurrences L (billItem b) ts)
        \<and> totalPrice b = round2 (total (map amount (occurrences L (billItem b) ts)))
        \<and> unitPrice b = round2 (average (map amount (occurrences L (billItem b) ts)))"
    using combineItems_entry [of _ L ts] by blast
  show ?thesis using d s e o by (intro conjI)
qed

text \<open>
  Witness for C5, the example of the claim: milk at 100 three times and bread at 50 once
  give milk (quantity 3, totalPrice 300, unitPrice 100) before bread (quantity 1,
  totalPrice 50, unitPrice 50).
\<close>

theorem C5_witness_milk_three_times_and_bread_once:
  "\<forall>L. combineItems L
        [tx ''milk'' (Fin 100), tx ''milk'' (Fin 100), tx ''milk'' (Fin 100), tx ''bread'' (Fin 50)] =
       [\<lparr>billItem = str ''milk'', quantity = 3, unitPrice = Fin 100, totalPrice = Fin 300\<rparr>,
        \<lparr>billItem = str ''bread'', quantity = 1, unitPrice = Fin 50, totalPrice = Fin 50\<rparr>]
     \<and> sorted_wrt (\<lambda>a b. greaterOrEqual (totalPrice a) (totalPrice b))
        (combineItems L
          [tx ''milk'' (Fin 100), tx ''milk'' (Fin 100), tx ''milk'' (Fin 100), tx ''bread'' (Fin 50)])"
proof
  fix L
  let ?ts = "[tx ''milk'' (Fin 100), tx ''milk'' (Fin 100), tx ''milk'' (Fin 100), tx ''bread'' (Fin 50)]"
  have c: "combineItems L ?ts =
     [\<lparr>billItem = str ''milk'', quantity = 3, unitPrice = Fin 100, totalPrice = Fin 300\<rparr>,
      \<lparr>billItem = str ''bread'', quantity = 1, unitPrice = Fin 50, totalPrice = Fin 50\<rparr>]"
    by (simp add: combineItems_def tx_def itemKey_def trim_def toLowerCase_def lowerUnit_def
        isWhiteSpace_def str_def round2_def Array_sort_def number_eval)
  have n: "\<forall>b \<in> set (combineItems L ?ts). totalPrice b \<noteq> NaN"
    by (simp add: c)
  have "sorted_wrt (\<lambda>a b. greaterOrEqual (totalPrice a) (totalPrice b)) (combineItems L ?ts)"
    using C5_combineItems_groups_counts_sums_rounds_and_sorts [of L ?ts] n by blast
  then show "combineItems L ?ts =
       [\<lparr>billItem = str ''milk'', quantity = 3, unitPrice = Fin 100, totalPrice = Fin 300\<rparr>,
        \<lparr>billItem = str ''bread'', quantity = 1, unitPrice = Fin 50, totalPrice = Fin 50\<rparr>]
     \<and> sorted_wrt (\<lambda>a b. greaterOrEqual (totalPrice a) (totalPrice b)) (combineItems L ?ts)"
    using c by (intro conjI)
qed

text \<open>
  Counterexample to C5 as stated: a single purchase of 0.125 is reported with totalPrice
  0.13, which is not the sum of the amounts.
\<close>

theorem C5_counterexample_total_is_rounded:
  "\<forall>L. combineItems L [tx ''milk'' (Fin (1 / 8))] =
       [\<lparr>billItem = str ''milk'', quantity = 1, unitPrice = decimal 13 2, totalPrice = decimal 13 2\<rparr>]
     \<and> total (map amount [tx ''milk'' (Fin (1 / 8))]) = Fin (1 / 8)
     \<and> decimal 13 2 \<noteq> Fin (1 / 8)"
  by (simp add: combineItems_def tx_def itemKey_def trim_def toLowerCase_def lowerUnit_def
      isWhiteSpace_def str_def round2_def Array_sort_def decimal_def number_eval)

end
